theory Spec2Isabelle
  imports Complex_Main "HOL-Library.Word"
begin

section \<open>Cut-pursuit for quadratic + d1 + l1 + bounds: the data model\<close>

text \<open>
  The development embeds \<^verbatim>\<open>src/src/cp_pfdr_d1_ql1b.cpp\<close>, the methods of the class
  \<^verbatim>\<open>Cp_d1_ql1b<real_t, index_t, comp_t>\<close>.

  Numbers. The file instantiates \<^verbatim>\<open>index_t = uint32_t\<close> only, so the entries of the
  offset arrays \<^verbatim>\<open>first_vertex\<close> and \<^verbatim>\<open>first_edge\<close> and the activation counters are
  32-bit words; \<^verbatim>\<open>size_t\<close> is taken as a 64-bit word. Values that are only used as
  indices (vertex numbers, component numbers) are natural numbers. \<^verbatim>\<open>real_t\<close> is an
  IEEE-754 type, \<^verbatim>\<open>float\<close> or \<^verbatim>\<open>double\<close> (lines 790 to 796); it is idealised here as
  an exact real number, with no rounding, no NaN and no signed zero. The two
  infinities, which the source uses for the box constraints and for the terminal
  capacities (\<^verbatim>\<open>INF_REAL\<close>), are kept: a value that may be infinite has the type \<open>ext\<close>.
  The size of a \<^verbatim>\<open>real_t\<close> matters for the byte counts passed to the allocator, which
  are \<^verbatim>\<open>size_t\<close> products and wrap.

  Arrays. A borrowed C array is a function from the index to the element; an optional
  array (a pointer that may be null) is an \<open>option\<close> of such a function. Reads are in
  range for well-formed inputs; the model does not trap an out-of-range read.
\<close>

type_synonym size_t = "64 word"
type_synonym index_t = "32 word"
type_synonym 'a arr = "nat \<Rightarrow> 'a"

datatype ext = NInf | Fin real | PInf

instantiation ext :: linorder
begin

fun less_eq_ext :: "ext \<Rightarrow> ext \<Rightarrow> bool" where
  "less_eq_ext NInf y = True"
| "less_eq_ext (Fin x) NInf = False"
| "less_eq_ext (Fin x) (Fin y) = (x \<le> y)"
| "less_eq_ext (Fin x) PInf = True"
| "less_eq_ext PInf NInf = False"
| "less_eq_ext PInf (Fin y) = False"
| "less_eq_ext PInf PInf = True"

definition less_ext :: "ext \<Rightarrow> ext \<Rightarrow> bool" where
  "less_ext x y = (x \<le> y \<and> \<not> y \<le> x)"

instance
proof
  fix x y z :: ext
  show "(x < y) = (x \<le> y \<and> \<not> y \<le> x)"
    by (simp add: less_ext_def)
  show "x \<le> x"
    by (cases x) simp_all
  show "x \<le> y \<Longrightarrow> y \<le> z \<Longrightarrow> x \<le> z"
    by (cases x; cases y; cases z) simp_all
  show "x \<le> y \<Longrightarrow> y \<le> x \<Longrightarrow> x = y"
    by (cases x; cases y) simp_all
  show "x \<le> y \<or> y \<le> x"
    by (cases x; cases y) auto
qed

end

text \<open>
  The shape of the quadratic part is encoded in the \<^verbatim>\<open>size_t\<close> field \<^verbatim>\<open>N\<close> through two
  reserved values, \<^verbatim>\<open>FULL_ATA\<close> and \<^verbatim>\<open>DIAG_ATA\<close>, tested by the macro \<^verbatim>\<open>IS_ATA\<close>. The three
  are declared in a header that is not part of the sources at hand, so the two
  values are parameters of the model and every result holds whatever they are. The
  floating-point type that the class is instantiated with is the third parameter.
\<close>

datatype real_type = Float32 | Float64

record sentinels =
  FULL_ATA :: size_t
  DIAG_ATA :: size_t
  real_t :: real_type

definition sizeof_real_t :: "sentinels \<Rightarrow> size_t" where
  "sizeof_real_t S = (case real_t S of Float32 \<Rightarrow> 4 | Float64 \<Rightarrow> 8)"

definition IS_ATA :: "sentinels \<Rightarrow> size_t \<Rightarrow> bool" where
  \<comment> \<open>Modelled from the spec: the macro of the missing header; \<^verbatim>\<open>N\<close> is one of the
      reserved sentinel values that tag a premultiplied shape.\<close>
  "IS_ATA S n = (n = FULL_ATA S \<or> n = DIAG_ATA S)"

subsection \<open>The residual buffer and its allocation\<close>

text \<open>
  \<^verbatim>\<open>R\<close> is the one buffer the class owns. The allocator hands out block numbers in
  sequence, so a block returned by \<^verbatim>\<open>malloc_check\<close> was never live before; \<open>junk\<close>
  is the indeterminate content a block holds when it is handed out. Allocation is
  taken to succeed (\<^verbatim>\<open>malloc_check\<close> ends the process otherwise). The allocator is
  called with a number of bytes, a \<^verbatim>\<open>size_t\<close> product such as \<^verbatim>\<open>sizeof(real_t)*N\<close> that
  wraps modulo \<open>2^64\<close>; the length \<open>len\<close> of a block is the number of \<^verbatim>\<open>real_t\<close> entries
  that fit in the bytes obtained.
\<close>

record buffer =
  blk :: nat
  len :: nat
  cont :: "real arr"

record heap =
  allocated :: nat
  freed :: "nat set"
  junk :: "nat \<Rightarrow> real arr"


definition free_buf :: "heap \<Rightarrow> buffer option \<Rightarrow> heap" where
  \<comment> \<open>\<^verbatim>\<open>free(p)\<close>; nothing happens on a null pointer.\<close>
  "free_buf h p = (case p of None \<Rightarrow> h | Some b \<Rightarrow> h\<lparr>freed := insert (blk b) (freed h)\<rparr>)"

definition entries :: "sentinels \<Rightarrow> size_t \<Rightarrow> nat" where
  "entries S bytes = unat bytes div unat (sizeof_real_t S)"

definition malloc_check :: "sentinels \<Rightarrow> heap \<Rightarrow> size_t \<Rightarrow> heap \<times> buffer" where
  "malloc_check S h bytes =
     (h\<lparr>allocated := Suc (allocated h)\<rparr>,
      \<lparr>blk = allocated h, len = entries S bytes, cont = junk h (allocated h)\<rparr>)"

subsection \<open>The solver object\<close>

text \<open>
  One record holds the fields of the engine's base class that this file reads or
  writes (graph, partition, activation and saturation flags, reduced values) and the
  fields of \<^verbatim>\<open>Cp_d1_ql1b\<close> itself. The fields \<^verbatim>\<open>V, Y, A, R, N, a\<close> of the class are
  \<open>this_V\<close>, ..., \<open>this_a\<close>.

  The max-flow engine is a collaborator outside the sources. Of its flow network the
  object holds the terminal capacity of every vertex (\<open>term_cap\<close>), the two capacities
  of every edge (\<open>edge_cap\<close>), the side of the cut of every vertex after the last solve
  (\<open>sink\<close>) and, for bookkeeping, the number of solve calls made (\<open>solves\<close>).
\<close>

record cp =
  this_V :: nat
  first_edge :: "index_t arr"
  adj_vertices :: "nat arr"
  edge_weights :: "real arr option"
  homo_edge_weight :: real
  rV :: nat
  first_vertex :: "index_t arr"
  comp_list :: "nat arr"
  comp_assign :: "nat arr"
  rX :: "real arr"
  last_rX :: "real arr"
  tmp_comp_assign :: "nat arr"
  active :: "nat set"
  saturated :: "bool arr"
  term_cap :: "ext arr"
  edge_cap :: "(real \<times> real) arr"
  sink :: "bool arr"
  solves :: nat
  eps :: real
  dif_tol :: real
  monitor_evolution :: bool
  this_Y :: "real arr option"
  Yl1 :: "real arr option"
  this_A :: "real arr option"
  this_R :: "buffer option"
  this_N :: size_t
  this_a :: real
  l1_weights :: "real arr option"
  homo_l1_weight :: real
  low_bnd :: "ext arr option"
  homo_low_bnd :: ext
  upp_bnd :: "ext arr option"
  homo_upp_bnd :: ext
  pfdr_rho :: real
  pfdr_cond_min :: real
  pfdr_dif_rcd :: real
  pfdr_dif_tol :: real
  pfdr_it :: int
  pfdr_it_max :: int
  mem :: heap

section \<open>Construction and configuration\<close>

definition Cp_d1_ql1b :: "sentinels \<Rightarrow> cp \<Rightarrow> cp" where
  \<comment> \<open>The constructor body, applied to the object as the base class has built it.\<close>
  "Cp_d1_ql1b S st =
     st\<lparr>this_Y := None, Yl1 := None, this_A := None, this_R := None,
        this_N := DIAG_ATA S,
        this_a := 1,
        l1_weights := None, homo_l1_weight := 0,
        low_bnd := None, homo_low_bnd := NInf,
        upp_bnd := None, homo_upp_bnd := PInf,
        pfdr_rho := 1, pfdr_cond_min := 1 / 1000, pfdr_dif_rcd := 0,
        pfdr_dif_tol := (1 / 1000) * dif_tol st, pfdr_it := 10000, pfdr_it_max := 10000,
        monitor_evolution := True\<rparr>"

definition set_quadratic ::
  "sentinels \<Rightarrow> cp \<Rightarrow> real arr option \<Rightarrow> size_t \<Rightarrow> real arr option \<Rightarrow> real \<Rightarrow> cp" where
  "set_quadratic S st Y' N' A' a' =
     (let N1 = (if A' = None \<and> a' = 0 then DIAG_ATA S else N');
          h1 = free_buf (mem st) (this_R st)
      in if IS_ATA S N1
         then st\<lparr>mem := h1, this_R := None,
                 this_Y := Y', this_N := N1, this_A := A', this_a := a'\<rparr>
         else let (h2, b) = malloc_check S h1 (sizeof_real_t S * N1)
              in st\<lparr>mem := h2, this_R := Some b,
                      this_Y := Y', this_N := N1, this_A := A', this_a := a'\<rparr>)"

text \<open>
  The two checked setters end the process on a violation (\<^verbatim>\<open>exit(EXIT_FAILURE)\<close> after
  a message on \<^verbatim>\<open>cerr\<close>). The outcome \<open>Inl\<close> carries the reported values and the object
  as it stands when the process ends.
\<close>

datatype fatal =
  Negative_l1 real
| Low_above_upp ext ext

definition set_l1 ::
  "cp \<Rightarrow> real arr option \<Rightarrow> real \<Rightarrow> real arr option \<Rightarrow> (fatal \<times> cp) + cp" where
  "set_l1 st l1_weights' homo_l1_weight' Yl1' =
     (if l1_weights' = None \<and> homo_l1_weight' < 0
      then Inl (Negative_l1 homo_l1_weight', st)
      else Inr (st\<lparr>l1_weights := l1_weights', homo_l1_weight := homo_l1_weight',
                   Yl1 := Yl1'\<rparr>))"

definition set_bounds ::
  "cp \<Rightarrow> ext arr option \<Rightarrow> ext \<Rightarrow> ext arr option \<Rightarrow> ext \<Rightarrow> (fatal \<times> cp) + cp" where
  "set_bounds st low_bnd' homo_low_bnd' upp_bnd' homo_upp_bnd' =
     (if low_bnd' = None \<and> upp_bnd' = None \<and> homo_low_bnd' > homo_upp_bnd'
      then Inl (Low_above_upp homo_low_bnd' homo_upp_bnd', st)
      else Inr (st\<lparr>low_bnd := low_bnd', homo_low_bnd := homo_low_bnd',
                   upp_bnd := upp_bnd', homo_upp_bnd := homo_upp_bnd'\<rparr>))"

definition set_pfdr_param :: "cp \<Rightarrow> real \<Rightarrow> real \<Rightarrow> real \<Rightarrow> int \<Rightarrow> real \<Rightarrow> cp" where
  "set_pfdr_param st rho cond_min dif_rcd it_max dif_tol' =
     st\<lparr>pfdr_rho := rho, pfdr_cond_min := cond_min, pfdr_dif_rcd := dif_rcd,
        pfdr_it_max := it_max, pfdr_dif_tol := dif_tol'\<rparr>"

section \<open>Shared pieces\<close>

text \<open>
  The macros of the source that read an optional array or its homogeneous default
  (\<^verbatim>\<open>EDGE_WEIGHTS_\<close>, \<^verbatim>\<open>L1_WEIGHTS_\<close>, \<^verbatim>\<open>Y_\<close>, \<^verbatim>\<open>Yl1_\<close>).
\<close>

definition EDGE_WEIGHTS_at :: "cp \<Rightarrow> nat \<Rightarrow> real" where
  "EDGE_WEIGHTS_at st e = (case edge_weights st of Some w \<Rightarrow> w e | None \<Rightarrow> homo_edge_weight st)"

definition L1_WEIGHTS_at :: "cp \<Rightarrow> nat \<Rightarrow> real" where
  "L1_WEIGHTS_at st v = (case l1_weights st of Some w \<Rightarrow> w v | None \<Rightarrow> homo_l1_weight st)"

definition Y_at :: "cp \<Rightarrow> nat \<Rightarrow> real" where
  "Y_at st n = (case this_Y st of Some y \<Rightarrow> y n | None \<Rightarrow> 0)"

definition Yl1_at :: "cp \<Rightarrow> nat \<Rightarrow> real" where
  "Yl1_at st v = (case Yl1 st of Some y \<Rightarrow> y v | None \<Rightarrow> 0)"

text \<open>
  Undefined behaviour of the C++ is an outcome of the model: reading or writing
  through a null pointer, writing past the end of a buffer, dividing an integer by
  zero, reading a variable that holds no value yet.
\<close>

datatype ub = Null_read | Null_write | Out_of_bounds | Zero_divide | Uninit_read

text \<open>
  The loop \<^verbatim>\<open>for (i in xs) s += g(i)\<close> with its accumulator, and the positions of
  \<^verbatim>\<open>comp_list\<close> that hold component \<open>rv\<close>, which every
  \<^verbatim>\<open>for (v = first_vertex[rv]; v < first_vertex[rv + 1]; v++)\<close> runs along. The
  difference \<^verbatim>\<open>first_vertex[rv + 1] - first_vertex[rv]\<close> is taken in \<^verbatim>\<open>index_t\<close>.
\<close>

definition acc_loop :: "('i \<Rightarrow> real) \<Rightarrow> 'i list \<Rightarrow> real \<Rightarrow> real" where
  "acc_loop g xs s = fold (\<lambda>i s. s + g i) xs s"

definition seg :: "cp \<Rightarrow> nat \<Rightarrow> nat list" where
  "seg st rv = [unat (first_vertex st rv) ..< unat (first_vertex st (Suc rv))]"

definition seg_size :: "cp \<Rightarrow> nat \<Rightarrow> nat" where
  "seg_size st rv = unat (first_vertex st (Suc rv) - first_vertex st rv)"

text \<open>
  The engine's accessors, which the sources only call. Modelled from the spec: one
  saturation bit per component, one active flag per edge, each with a predicate and
  a mutator; activation only ever sets the flag.
\<close>

definition is_saturated :: "cp \<Rightarrow> nat \<Rightarrow> bool" where
  \<comment> \<open>Modelled from the spec: the saturation predicate of the partition engine.\<close>
  "is_saturated st rv = saturated st rv"

definition set_saturation :: "cp \<Rightarrow> nat \<Rightarrow> bool \<Rightarrow> cp" where
  \<comment> \<open>Modelled from the spec: the saturation mutator of the partition engine.\<close>
  "set_saturation st rv b = st\<lparr>saturated := (saturated st)(rv := b)\<rparr>"

definition is_active :: "cp \<Rightarrow> nat \<Rightarrow> bool" where
  \<comment> \<open>Modelled from the spec: the active-edge predicate of the partition engine.\<close>
  "is_active st e = (e \<in> active st)"

definition set_active :: "cp \<Rightarrow> nat \<Rightarrow> cp" where
  \<comment> \<open>Modelled from the spec: the active-edge mutator of the partition engine.\<close>
  "set_active st e = st\<lparr>active := insert e (active st)\<rparr>"

text \<open>
  The selection utilities (\<^verbatim>\<open>wth_element\<close>, \<^verbatim>\<open>nth_element_idx\<close>) are collaborators
  too. Each is given the index segment it may reorder, the values, the threshold (a
  weight or a rank) and, for the weighted one, the weights; it returns the selected
  value and the segment as it leaves it. They are parameters of the model.
\<close>

record selection =
  wth_element :: "nat list \<Rightarrow> real arr \<Rightarrow> real \<Rightarrow> real arr \<Rightarrow> real \<times> nat list"
  nth_element_idx :: "nat list \<Rightarrow> real arr \<Rightarrow> nat \<Rightarrow> real \<times> nat list"

definition get_seg :: "nat arr \<Rightarrow> nat \<Rightarrow> nat \<Rightarrow> nat list" where
  "get_seg cl off n = map cl [off ..< off + n]"

definition put_seg :: "nat arr \<Rightarrow> nat \<Rightarrow> nat \<Rightarrow> nat list \<Rightarrow> nat arr" where
  "put_seg cl off n xs =
     (\<lambda>i. if off \<le> i \<and> i < off + n \<and> i - off < length xs then xs ! (i - off) else cl i)"

section \<open>The univertex problem\<close>

text \<open>
  \<^verbatim>\<open>solve_univertex_problem\<close>, lines 103 to 204. First the two aggregates of the
  quadratic part, \<^verbatim>\<open>y\<close> and \<^verbatim>\<open>aa\<close>, by the shape; \<open>univertex_rA\<close> is the buffer \<^verbatim>\<open>rA\<close>
  of column sums. In the direct shape \<^verbatim>\<open>rA\<close> is allocated with \<^verbatim>\<open>sizeof(real_t)*N\<close> bytes
  and filled for \<open>n\<close> from \<open>0\<close> to \<open>N - 1\<close> (taken in this order): entry \<open>n\<close> is
  written, then the entries of \<^verbatim>\<open>A\<close> are read when there is a vertex. In the identity
  shape \<^verbatim>\<open>aa\<close> is \<open>V\<close> for every nonzero \<^verbatim>\<open>a\<close> (line 147).
\<close>

definition univertex_rA :: "cp \<Rightarrow> real arr \<Rightarrow> real arr" where
  "univertex_rA st Am n =
     acc_loop (\<lambda>v. Am (n + unat (this_N st) * v)) [0 ..< this_V st] 0"

definition univertex_y_aa :: "sentinels \<Rightarrow> cp \<Rightarrow> ub + (real \<times> real)" where
  "univertex_y_aa S st =
     (if \<not> IS_ATA S (this_N st) then
        (if unat (this_N st) = 0 then Inr (0, 0)
         else if entries S (sizeof_real_t S * this_N st) = 0 then Inl Out_of_bounds
         else if this_A st = None \<and> this_V st \<noteq> 0 then Inl Null_read
         else if entries S (sizeof_real_t S * this_N st) < unat (this_N st)
         then Inl Out_of_bounds
         else
           (let Am = (case this_A st of Some Am \<Rightarrow> Am | None \<Rightarrow> (\<lambda>i. 0))
            in Inr (acc_loop (\<lambda>n. univertex_rA st Am n * Y_at st n) [0 ..< unat (this_N st)] 0,
                    acc_loop (\<lambda>n. univertex_rA st Am n * univertex_rA st Am n)
                      [0 ..< unat (this_N st)] 0)))
      else if this_A st \<noteq> None \<or> this_a st \<noteq> 0 then
        (let y = (case this_Y st of
                    Some Yv \<Rightarrow> acc_loop Yv [0 ..< this_V st] 0
                  | None \<Rightarrow> 0)
         in if this_N st = FULL_ATA S then
              (case this_A st of
                 None \<Rightarrow> if this_V st = 0 then Inr (y, 0) else Inl Null_read
               | Some Am \<Rightarrow>
                   Inr (y, fold (\<lambda>u aa. acc_loop (\<lambda>v. Am (this_V st * u + v)) [0 ..< this_V st] aa)
                             [0 ..< this_V st] 0))
            else
              (case this_A st of
                 Some Am \<Rightarrow> Inr (y, acc_loop Am [0 ..< this_V st] 0)
               | None \<Rightarrow> Inr (y, real (this_V st))))
      else Inr (0, 0))"

text \<open>
  The aggregated l1 weight and the median of the targets. The weighted selection
  reorders \<^verbatim>\<open>comp_list\<close> and is followed by \<^verbatim>\<open>set_saturation(0, false)\<close>; the
  unweighted one reorders \<^verbatim>\<open>comp_list\<close> only. The result is \<open>(wl1, yl1, object)\<close>.
\<close>

definition univertex_l1 :: "selection \<Rightarrow> cp \<Rightarrow> real \<times> real \<times> cp" where
  "univertex_l1 sel st =
     (case l1_weights st of
        Some w \<Rightarrow>
          (let wl1 = acc_loop w [0 ..< this_V st] 0
           in case Yl1 st of
                Some t \<Rightarrow>
                  (let (m, xs) = wth_element sel (get_seg (comp_list st) 0 (this_V st)) t
                                   ((1 / 2) * wl1) w
                   in (wl1, m,
                       set_saturation
                         (st\<lparr>comp_list := put_seg (comp_list st) 0 (this_V st) xs\<rparr>) 0 False))
              | None \<Rightarrow> (wl1, 0, st))
      | None \<Rightarrow>
          if homo_l1_weight st \<noteq> 0 then
            (let wl1 = real (this_V st) * homo_l1_weight st
             in case Yl1 st of
                  Some t \<Rightarrow>
                    (let (m, xs) = nth_element_idx sel (get_seg (comp_list st) 0 (this_V st)) t
                                     (this_V st div 2)
                     in (wl1, m, st\<lparr>comp_list := put_seg (comp_list st) 0 (this_V st) xs\<rparr>))
                | None \<Rightarrow> (wl1, 0, st))
          else (0, 0, st))"

text \<open>
  The least-square + l1 solution. Where \<^verbatim>\<open>aa\<close> is zero the first branch divides a
  positive number by zero and the second a negative one, which IEEE-754 makes
  \<open>+\<infinity>\<close> and \<open>-\<infinity>\<close>.
\<close>

definition univertex_threshold :: "real \<Rightarrow> real \<Rightarrow> real \<Rightarrow> real \<Rightarrow> ext" where
  "univertex_threshold y aa wl1 yl1 =
     (if y - wl1 > aa * yl1 then (if aa = 0 then PInf else Fin ((y - wl1) / aa))
      else if y + wl1 < aa * yl1 then (if aa = 0 then NInf else Fin ((y + wl1) / aa))
      else Fin yl1)"

definition univertex_low :: "cp \<Rightarrow> ext" where
  "univertex_low st =
     (case low_bnd st of
        Some lb \<Rightarrow> fold (\<lambda>v low. if low < lb v then lb v else low) [0 ..< this_V st] NInf
      | None \<Rightarrow> homo_low_bnd st)"

definition univertex_upp :: "cp \<Rightarrow> ext" where
  "univertex_upp st =
     (case upp_bnd st of
        Some ub \<Rightarrow> fold (\<lambda>v upp. if upp > ub v then ub v else upp) [0 ..< this_V st] PInf
      | None \<Rightarrow> homo_upp_bnd st)"

definition univertex_proj :: "cp \<Rightarrow> ext \<Rightarrow> ext" where
  "univertex_proj st uX =
     (let uX1 = (if uX < univertex_low st then univertex_low st else uX)
      in if uX1 > univertex_upp st then univertex_upp st else uX1)"

text \<open>
  The residual \<^verbatim>\<open>R = Y - A X\<close> of the direct matricial case, written into the owned
  buffer. (With a null \<^verbatim>\<open>A\<close> this point is reached only when no entry of \<^verbatim>\<open>A\<close> is
  read, and then \<^verbatim>\<open>rA\<close> is zero or empty.) The method returns whatever the solution is.
  When the solution is infinite the entries written are infinite or NaN, values that a
  buffer of exact reals cannot hold: the solution is still returned, and the object
  after the call is not represented (\<open>None\<close>).
\<close>

definition univertex_residual :: "cp \<Rightarrow> real arr \<Rightarrow> ext \<Rightarrow> ub + cp option" where
  "univertex_residual st Am uX =
     (if unat (this_N st) = 0 then Inr (Some st)
      else case this_R st of
          None \<Rightarrow> Inl Null_write
        | Some b \<Rightarrow>
            if len b < unat (this_N st) then Inl Out_of_bounds
            else case uX of
                Fin x \<Rightarrow>
                  Inr (Some (st\<lparr>this_R := Some (b\<lparr>cont :=
                         (\<lambda>n. if n < unat (this_N st) then Y_at st n - univertex_rA st Am n * x
                              else cont b n)\<rparr>)\<rparr>))
              | _ \<Rightarrow> Inr None)"

definition solve_univertex_problem ::
  "sentinels \<Rightarrow> selection \<Rightarrow> cp \<Rightarrow> ub + (ext \<times> cp option)" where
  "solve_univertex_problem S sel st =
     (case univertex_y_aa S st of
        Inl e \<Rightarrow> Inl e
      | Inr (y, aa) \<Rightarrow>
          (let (wl1, yl1, st1) = univertex_l1 sel st;
               uX = univertex_proj st (univertex_threshold y aa wl1 yl1)
           in if \<not> IS_ATA S (this_N st) then
                (case univertex_residual st1
                        (case this_A st of Some Am \<Rightarrow> Am | None \<Rightarrow> (\<lambda>i. 0)) uX of
                   Inl e \<Rightarrow> Inl e
                 | Inr st2 \<Rightarrow> Inr (uX, st2))
              else Inr (uX, Some st1)))"

text \<open>
  The quantities of the closed form as the specification words them: the aggregates
  \<open>\<langle>A 1, Y\<rangle>\<close> and \<open>\<parallel>A 1\<parallel>\<^sup>2\<close> as sums over the operator (over the entries of
  \<open>A\<^sup>t Y\<close> and \<open>A\<^sup>t A\<close> when the problem is premultiplied), the total l1 weight, the
  median as the selection utility returns it, the soft threshold, and the tightest
  bounds. The premultiplied shapes hold \<open>A\<^sup>t A\<close>: a full symmetric matrix, a diagonal, or
  the scalar \<^verbatim>\<open>a\<close> of a scaled identity, for which \<open>\<parallel>A 1\<parallel>\<^sup>2\<close> is \<open>a V\<close>.

  The univertex problem and the objective test \<^verbatim>\<open>a\<close> against zero only, and take the
  operator for the identity when it is not zero (lines 146 and 747). The object with
  its nonzero \<^verbatim>\<open>a\<close> replaced by \<open>1\<close> is \<open>unit_coefficient\<close>.
\<close>

definition unit_coefficient :: "cp \<Rightarrow> cp" where
  "unit_coefficient st = st\<lparr>this_a := (if this_a st = 0 then 0 else 1)\<rparr>"

definition quad_y :: "sentinels \<Rightarrow> cp \<Rightarrow> real" where
  "quad_y S st =
     (if \<not> IS_ATA S (this_N st) then
        (case this_A st of
           Some Am \<Rightarrow> (\<Sum>n < unat (this_N st).
                          (\<Sum>v < this_V st. Am (n + unat (this_N st) * v)) * Y_at st n)
         | None \<Rightarrow> 0)
      else if this_A st \<noteq> None \<or> this_a st \<noteq> 0 then
        (case this_Y st of Some Yv \<Rightarrow> (\<Sum>v < this_V st. Yv v) | None \<Rightarrow> 0)
      else 0)"

definition quad_aa :: "sentinels \<Rightarrow> cp \<Rightarrow> real" where
  "quad_aa S st =
     (if \<not> IS_ATA S (this_N st) then
        (case this_A st of
           Some Am \<Rightarrow> (\<Sum>n < unat (this_N st).
                          (\<Sum>v < this_V st. Am (n + unat (this_N st) * v))\<^sup>2)
         | None \<Rightarrow> 0)
      else if this_N st = FULL_ATA S then
        (case this_A st of
           Some Am \<Rightarrow> (\<Sum>u < this_V st. \<Sum>v < this_V st. Am (this_V st * u + v))
         | None \<Rightarrow> 0)
      else
        (case this_A st of
           Some Am \<Rightarrow> (\<Sum>v < this_V st. Am v)
         | None \<Rightarrow> this_a st * real (this_V st)))"

definition total_wl1 :: "cp \<Rightarrow> real" where
  "total_wl1 st =
     (case l1_weights st of
        Some w \<Rightarrow> (\<Sum>v < this_V st. w v)
      | None \<Rightarrow> real (this_V st) * homo_l1_weight st)"

definition l1_median :: "selection \<Rightarrow> cp \<Rightarrow> real" where
  "l1_median sel st =
     (case Yl1 st of
        None \<Rightarrow> 0
      | Some t \<Rightarrow>
          (case l1_weights st of
             Some w \<Rightarrow> fst (wth_element sel (get_seg (comp_list st) 0 (this_V st)) t
                              (total_wl1 st / 2) w)
           | None \<Rightarrow>
               if homo_l1_weight st \<noteq> 0
               then fst (nth_element_idx sel (get_seg (comp_list st) 0 (this_V st)) t
                           (this_V st div 2))
               else 0))"

definition soft_threshold :: "real \<Rightarrow> real \<Rightarrow> real \<Rightarrow> real \<Rightarrow> real" where
  "soft_threshold y aa wl1 m =
     (if y - wl1 > aa * m then (y - wl1) / aa
      else if y + wl1 < aa * m then (y + wl1) / aa
      else m)"

definition max_low :: "cp \<Rightarrow> ext" where
  "max_low st =
     (case low_bnd st of
        Some lb \<Rightarrow> Max (insert NInf (lb ` {..< this_V st}))
      | None \<Rightarrow> homo_low_bnd st)"

definition min_upp :: "cp \<Rightarrow> ext" where
  "min_upp st =
     (case upp_bnd st of
        Some ub \<Rightarrow> Min (insert PInf (ub ` {..< this_V st}))
      | None \<Rightarrow> homo_upp_bnd st)"

section \<open>The reduced problem\<close>

text \<open>
  \<^verbatim>\<open>solve_reduced_problem\<close>, lines 206 to 460. Embedded are the choice of the reduced
  shape with its allocations (lines 213 to 238), the loop that reduces the l1 weights,
  the medians and the bounds (lines 332 to 422), and the arguments handed to the
  reduced solver by \<^verbatim>\<open>set_quadratic\<close> and \<^verbatim>\<open>set_bounds\<close> (lines 429 to 432).

  Line 224 declares \<^verbatim>\<open>rN\<close> and initialises it by an expression that reads \<^verbatim>\<open>rN\<close>:
  \<^verbatim>\<open>size_t rN = !IS_ATA(rN) && rV < (2*N*pfdr_it)/(N + pfdr_it) ? FULL_ATA : N;\<close>
  The left operand of \<^verbatim>\<open>&&\<close> is always evaluated, and it reads a variable that holds
  no value yet: undefined behaviour. \<open>reduced_rN_from\<close> evaluates the initialiser
  given what \<^verbatim>\<open>rN\<close> holds; on line 224 it holds nothing. The arithmetic is that of
  \<^verbatim>\<open>size_t\<close>: \<^verbatim>\<open>pfdr_it\<close>, an \<^verbatim>\<open>int\<close>, and \<^verbatim>\<open>rV\<close> are converted, products and sums wrap,
  the division truncates, and a zero divisor is undefined behaviour. The right operand
  of \<^verbatim>\<open>&&\<close> is evaluated only when the left one holds.
\<close>

definition reduced_rN_from :: "sentinels \<Rightarrow> size_t option \<Rightarrow> cp \<Rightarrow> ub + size_t" where
  "reduced_rN_from S held st =
     (case held of
        None \<Rightarrow> Inl Uninit_read
      | Some r \<Rightarrow>
          if IS_ATA S r then Inr (this_N st)
          else if this_N st + word_of_int (pfdr_it st) = 0 then Inl Zero_divide
          else Inr (if word_of_nat (rV st)
                         < (2 * this_N st * word_of_int (pfdr_it st))
                             div (this_N st + word_of_int (pfdr_it st))
                    then FULL_ATA S else this_N st))"

definition reduced_rN :: "sentinels \<Rightarrow> cp \<Rightarrow> ub + size_t" where
  "reduced_rN S st = reduced_rN_from S None st"

text \<open>
  Lines 226 to 238: the buffers allocated for the reduced observation, the reduced
  premultiplied operator and the reduced direct operator (each with the number of
  entries that fit in the bytes requested, a \<^verbatim>\<open>size_t\<close> product, or \<open>None\<close> for a pointer
  left null), and the final value of \<^verbatim>\<open>rN\<close>.
\<close>

record reduced_shape =
  rN :: size_t
  rY_len :: "nat option"
  rAA_len :: "nat option"
  rA_len :: "nat option"

definition reduced_alloc :: "sentinels \<Rightarrow> cp \<Rightarrow> size_t \<Rightarrow> reduced_shape" where
  "reduced_alloc S st rN1 =
     \<lparr>rN = (if IS_ATA S rN1 \<and> (this_A st \<noteq> None \<or> this_a st \<noteq> 0) \<and> this_N st \<noteq> DIAG_ATA S
            then FULL_ATA S else rN1),
      rY_len = (if IS_ATA S rN1 \<and> this_Y st \<noteq> None
                then Some (entries S (sizeof_real_t S * word_of_nat (rV st))) else None),
      rAA_len = (if IS_ATA S rN1 \<and> (this_A st \<noteq> None \<or> this_a st \<noteq> 0)
                 then (if this_N st = DIAG_ATA S
                       then Some (entries S (sizeof_real_t S * word_of_nat (rV st)))
                       else Some (entries S (sizeof_real_t S * word_of_nat (rV st)
                                               * word_of_nat (rV st))))
                 else None),
      rA_len = (if \<not> IS_ATA S (this_N st)
                then Some (entries S (sizeof_real_t S * this_N st * word_of_nat (rV st)))
                else None)\<rparr>"

text \<open>
  Lines 429 and 430: the reduced solver receives either the premultiplied form
  \<^verbatim>\<open>(rY, rN, rAA, a)\<close> or the direct form \<^verbatim>\<open>(Y, N, rA)\<close>.
\<close>

datatype quadratic_args =
  Premultiplied_args "nat option" size_t "nat option" real
| Direct_args size_t "nat option"

definition reduced_quadratic_args :: "sentinels \<Rightarrow> cp \<Rightarrow> reduced_shape \<Rightarrow> quadratic_args" where
  "reduced_quadratic_args S st sh =
     (if IS_ATA S (rN sh) then Premultiplied_args (rY_len sh) (rN sh) (rAA_len sh) (this_a st)
      else Direct_args (this_N st) (rA_len sh))"

text \<open>
  \<open>reduced_quadratic_from\<close> is the same passage given what \<^verbatim>\<open>rN\<close> holds when its
  initialiser runs; \<open>reduced_quadratic\<close> is the passage as it stands.
\<close>

definition reduced_quadratic_from ::
  "sentinels \<Rightarrow> size_t option \<Rightarrow> cp \<Rightarrow> ub + quadratic_args" where
  "reduced_quadratic_from S held st =
     (case reduced_rN_from S held st of
        Inl e \<Rightarrow> Inl e
      | Inr rN1 \<Rightarrow> Inr (reduced_quadratic_args S st (reduced_alloc S st rN1)))"

definition reduced_quadratic :: "sentinels \<Rightarrow> cp \<Rightarrow> ub + quadratic_args" where
  "reduced_quadratic S st =
     (case reduced_rN S st of
        Inl e \<Rightarrow> Inl e
      | Inr rN1 \<Rightarrow> Inr (reduced_quadratic_args S st (reduced_alloc S st rN1)))"

text \<open>
  The heuristic as the specification words it, over the reals: premultiply when
  \<open>rV < 2 N iterCap / (N + iterCap)\<close>.
\<close>

definition spec_premultiply :: "nat \<Rightarrow> int \<Rightarrow> nat \<Rightarrow> bool" where
  "spec_premultiply n iterCap k =
     (real k < 2 * real n * real_of_int iterCap / (real n + real_of_int iterCap))"

text \<open>
  The reduced l1 weights, medians and bounds. The four buffers are allocated when the
  corresponding term is configured (lines 336 to 351); their content is indeterminate
  until written (\<open>jr\<close>, \<open>je\<close>).
\<close>

record reduced =
  rl1_weights :: "real arr option"
  rYl1 :: "real arr option"
  rlow_bnd :: "ext arr option"
  rupp_bnd :: "ext arr option"

definition reduced_num_ops :: "cp \<Rightarrow> nat" where
  "reduced_num_ops st =
     (if l1_weights st \<noteq> None \<or> homo_l1_weight st \<noteq> 0
      then (if l1_weights st \<noteq> None then this_V st else rV st) else 0)
     + (if Yl1 st \<noteq> None then this_V st else 0)
     + (if low_bnd st \<noteq> None then this_V st else 0)
     + (if upp_bnd st \<noteq> None then this_V st else 0)"

definition reduced_buffers :: "real arr \<Rightarrow> ext arr \<Rightarrow> cp \<Rightarrow> reduced" where
  "reduced_buffers jr je st =
     \<lparr>rl1_weights = (if l1_weights st \<noteq> None \<or> homo_l1_weight st \<noteq> 0 then Some jr else None),
      rYl1 = (if Yl1 st \<noteq> None then Some jr else None),
      rlow_bnd = (if low_bnd st \<noteq> None then Some je else None),
      rupp_bnd = (if upp_bnd st \<noteq> None then Some je else None)\<rparr>"

definition store :: "'a arr option \<Rightarrow> nat \<Rightarrow> 'a \<Rightarrow> 'a arr option" where
  \<comment> \<open>\<^verbatim>\<open>p[i] = x\<close> on an allocated buffer.\<close>
  "store p i x = map_option (\<lambda>f. f(i := x)) p"

text \<open>
  For a saturated component the weighted median is found by running along the
  component until the weights reach the threshold:
  \<^verbatim>\<open>while ((wsum += l1_weights[comp_list[i]]) < wrk){ i++; }\<close>
  Nothing stops the loop at the end of the component; a read past the \<open>V\<close> entries of
  \<^verbatim>\<open>comp_list\<close> is undefined behaviour.
\<close>

function median_scan :: "cp \<Rightarrow> real arr \<Rightarrow> real \<Rightarrow> real \<Rightarrow> nat \<Rightarrow> ub + nat" where
  "median_scan st w wrk wsum i =
     (if this_V st \<le> i then Inl Out_of_bounds
      else if wsum + w (comp_list st i) < wrk
           then median_scan st w wrk (wsum + w (comp_list st i)) (Suc i)
           else Inr i)"
  by pat_completeness auto
termination
  by (relation "measure (\<lambda>(st, w, wrk, wsum, i). this_V st - i)") auto

definition reduced_l1 :: "selection \<Rightarrow> nat \<Rightarrow> cp \<times> reduced \<Rightarrow> ub + (cp \<times> reduced)" where
  "reduced_l1 sel rv = (\<lambda>(st, r).
     case l1_weights st of
       Some w \<Rightarrow>
         (let s = acc_loop (\<lambda>v. w (comp_list st v)) (seg st rv) 0;
              r1 = r\<lparr>rl1_weights := store (rl1_weights r) rv s\<rparr>
          in case Yl1 st of
               None \<Rightarrow> Inr (st, r1)
             | Some t \<Rightarrow>
                 if is_saturated st rv then
                   (case median_scan st w ((1 / 2) * s + real (seg_size st rv) * eps st) 0
                           (unat (first_vertex st rv)) of
                      Inl e \<Rightarrow> Inl e
                    | Inr i \<Rightarrow> Inr (st, r1\<lparr>rYl1 := store (rYl1 r1) rv (t (comp_list st i))\<rparr>))
                 else
                   (let (m, xs) = wth_element sel
                          (get_seg (comp_list st) (unat (first_vertex st rv)) (seg_size st rv))
                          t ((1 / 2) * s) w
                    in Inr (set_saturation
                              (st\<lparr>comp_list := put_seg (comp_list st) (unat (first_vertex st rv))
                                                  (seg_size st rv) xs\<rparr>) rv False,
                            r1\<lparr>rYl1 := store (rYl1 r1) rv m\<rparr>)))
     | None \<Rightarrow>
         if homo_l1_weight st \<noteq> 0 then
           (let r1 = r\<lparr>rl1_weights :=
                        store (rl1_weights r) rv (real (seg_size st rv) * homo_l1_weight st)\<rparr>
            in case Yl1 st of
                 None \<Rightarrow> Inr (st, r1)
               | Some t \<Rightarrow>
                   if is_saturated st rv then
                     Inr (st, r1\<lparr>rYl1 := store (rYl1 r1) rv
                            (t (comp_list st (unat (first_vertex st rv + (first_vertex st (Suc rv) - first_vertex st rv) div 2))))\<rparr>)
                   else
                     (let (m, xs) = nth_element_idx sel
                            (get_seg (comp_list st) (unat (first_vertex st rv)) (seg_size st rv))
                            t (seg_size st rv div 2)
                      in Inr (set_saturation
                                (st\<lparr>comp_list := put_seg (comp_list st) (unat (first_vertex st rv))
                                                    (seg_size st rv) xs\<rparr>) rv False,
                              r1\<lparr>rYl1 := store (rYl1 r1) rv m\<rparr>)))
         else Inr (st, r))"

text \<open>
  Lines 400 to 420. The lower bound of the component is the running maximum over its
  members, stored in \<^verbatim>\<open>rlow_bnd[rv]\<close>. Line 410 then declares a new local pointer,
  \<^verbatim>\<open>real_t *rupp_bnd = nullptr;\<close>, which hides the allocated buffer of the same name
  for the rest of the loop body; with an upper-bound array configured the next
  statement, \<^verbatim>\<open>rupp_bnd[rv] = INF_REAL;\<close>, writes through that null pointer. The
  allocated buffer is never written.
\<close>

definition reduced_low :: "cp \<Rightarrow> ext arr \<Rightarrow> nat \<Rightarrow> ext" where
  "reduced_low st lb rv =
     fold (\<lambda>v r. if r < lb (comp_list st v) then lb (comp_list st v) else r) (seg st rv) NInf"

definition reduced_step :: "selection \<Rightarrow> nat \<Rightarrow> cp \<times> reduced \<Rightarrow> ub + (cp \<times> reduced)" where
  "reduced_step sel rv sr =
     (case reduced_l1 sel rv sr of
        Inl e \<Rightarrow> Inl e
      | Inr (st, r) \<Rightarrow>
          (let r1 = (case low_bnd st of
                       Some lb \<Rightarrow> r\<lparr>rlow_bnd := store (rlow_bnd r) rv (reduced_low st lb rv)\<rparr>
                     | None \<Rightarrow> r)
           in if upp_bnd st \<noteq> None then Inl Null_write else Inr (st, r1)))"

fun fold_ub :: "('i \<Rightarrow> 's \<Rightarrow> ub + 's) \<Rightarrow> 'i list \<Rightarrow> 's \<Rightarrow> ub + 's" where
  "fold_ub f [] s = Inr s"
| "fold_ub f (x # xs) s = (case f x s of Inl e \<Rightarrow> Inl e | Inr s' \<Rightarrow> fold_ub f xs s')"

definition reduced_l1_bounds ::
  "selection \<Rightarrow> real arr \<Rightarrow> ext arr \<Rightarrow> cp \<Rightarrow> ub + (cp \<times> reduced)" where
  "reduced_l1_bounds sel jr je st =
     (if reduced_num_ops st = 0 then Inr (st, reduced_buffers jr je st)
      else fold_ub (reduced_step sel) [0 ..< rV st] (st, reduced_buffers jr je st))"

text \<open>
  Line 432: \<^verbatim>\<open>pfdr->set_bounds(rlow_bnd, homo_low_bnd, rupp_bnd, homo_upp_bnd)\<close>.
\<close>

definition reduced_bounds_args ::
  "selection \<Rightarrow> real arr \<Rightarrow> ext arr \<Rightarrow> cp
     \<Rightarrow> ub + (ext arr option \<times> ext \<times> ext arr option \<times> ext)" where
  "reduced_bounds_args sel jr je st =
     (case reduced_l1_bounds sel jr je st of
        Inl e \<Rightarrow> Inl e
      | Inr (st1, r) \<Rightarrow> Inr (rlow_bnd r, homo_low_bnd st1, rupp_bnd r, homo_upp_bnd st1))"

section \<open>The evolution monitor\<close>

text \<open>
  \<^verbatim>\<open>compute_evolution\<close>, lines 665 to 701. The loop over the components carries the
  two sums \<^verbatim>\<open>dif\<close> and \<^verbatim>\<open>amp\<close>, the counter \<^verbatim>\<open>saturation\<close> (an output parameter, reset
  to zero before the loop; it cannot pass \<^verbatim>\<open>rV\<close>) and the object, whose saturation
  flags may be cleared. The result is the returned value, the counter and the object.
  The previous values are read through the engine's \<^verbatim>\<open>get_tmp_comp_assign\<close>.
\<close>

definition evolution_step ::
  "bool \<Rightarrow> nat \<Rightarrow> real \<times> real \<times> nat \<times> cp \<Rightarrow> real \<times> real \<times> nat \<times> cp" where
  "evolution_step compute_dif rv = (\<lambda>(dif, amp, saturation, st).
     let rXv = rX st rv
     in if is_saturated st rv then
          (let lrXv = last_rX st (tmp_comp_assign st (comp_list st (unat (first_vertex st rv))));
               rv_dif = \<bar>rXv - lrXv\<bar>;
               (saturation1, st1) =
                  (if rv_dif > \<bar>rX st rv\<bar> * dif_tol st
                   then (saturation, set_saturation st rv False)
                   else (Suc saturation, st))
           in if compute_dif
              then (dif + rv_dif * rv_dif * real (seg_size st rv),
                    amp + rXv * rXv * real (seg_size st rv), saturation1, st1)
              else (dif, amp, saturation1, st1))
        else if compute_dif then
          (acc_loop (\<lambda>v. (rXv - last_rX st (tmp_comp_assign st (comp_list st v)))
                          * (rXv - last_rX st (tmp_comp_assign st (comp_list st v))))
             (seg st rv) dif,
           amp + rXv * rXv * real (seg_size st rv), saturation, st)
        else (dif, amp, saturation, st))"

definition compute_evolution :: "cp \<Rightarrow> bool \<Rightarrow> real \<times> nat \<times> cp" where
  "compute_evolution st compute_dif =
     (let (dif, amp, saturation, st1) =
            fold (evolution_step compute_dif) [0 ..< rV st] (0, 0, 0, st)
      in ((if compute_dif
           then (if sqrt amp > eps st then sqrt dif / sqrt amp else sqrt dif / eps st)
           else 0),
          saturation, st1))"

text \<open>
  The premise of the specification's property: for every component, the previous
  value of each member, and of the vertex at the component's first position, is the
  component's new value.
\<close>

definition unchanged :: "cp \<Rightarrow> bool" where
  "unchanged st =
     (\<forall>rv \<in> set [0 ..< rV st].
        \<forall>i \<in> set (unat (first_vertex st rv) # seg st rv).
          last_rX st (tmp_comp_assign st (comp_list st i)) = rX st rv)"

section \<open>The objective\<close>

text \<open>
  \<^verbatim>\<open>compute_objective\<close>, lines 703 to 787. The graph total variation is computed by
  the engine (\<^verbatim>\<open>compute_graph_d1\<close>), a parameter here. The quadratic term reads the
  residual buffer in the direct case and the operator array in the full
  premultiplied case.
\<close>

definition objective_full :: "cp \<Rightarrow> real arr \<Rightarrow> real" where
  "objective_full st Am =
     fold (\<lambda>ru obj.
        let sumrAAuvXv =
              fold (\<lambda>rv s.
                 let rAAuv = fold (\<lambda>u r. acc_loop (\<lambda>v. Am (this_V st * comp_list st u + comp_list st v))
                                            (seg st rv) r)
                               (seg st ru) 0
                 in if rv < ru then s + rAAuv * rX st rv
                    else s + (1 / 2) * rAAuv * rX st ru)
                [0 ..< Suc ru] 0;
            rAYu = acc_loop (\<lambda>u. Y_at st (comp_list st u)) (seg st ru) 0
        in obj + rX st ru * (sumrAAuvXv - rAYu))
       [0 ..< rV st] 0"

definition objective_diag :: "cp \<Rightarrow> real" where
  "objective_diag st =
     fold (\<lambda>rv obj.
        let rAAv = (case this_A st of
                      Some Am \<Rightarrow> acc_loop (\<lambda>v. Am (comp_list st v)) (seg st rv) 0
                    | None \<Rightarrow> real (seg_size st rv));
            rAYv = acc_loop (\<lambda>v. Y_at st (comp_list st v)) (seg st rv) 0
        in obj + rX st rv * ((1 / 2) * rAAv * rX st rv - rAYv))
       [0 ..< rV st] 0"

definition objective_quadratic :: "sentinels \<Rightarrow> cp \<Rightarrow> ub + real" where
  "objective_quadratic S st =
     (if \<not> IS_ATA S (this_N st) then
        (if unat (this_N st) = 0 then Inr 0
         else case this_R st of
             None \<Rightarrow> Inl Null_read
           | Some b \<Rightarrow>
               if len b < unat (this_N st) then Inl Out_of_bounds
               else Inr (acc_loop (\<lambda>n. cont b n * cont b n) [0 ..< unat (this_N st)] 0 * (1 / 2)))
      else if this_N st = FULL_ATA S then
        (case this_A st of
           None \<Rightarrow> if list_ex (\<lambda>ru. seg st ru \<noteq> []) [0 ..< rV st] then Inl Null_read
                   else Inr (objective_full st (\<lambda>i. 0))
         | Some Am \<Rightarrow> Inr (objective_full st Am))
      else if this_A st \<noteq> None \<or> this_a st \<noteq> 0 then Inr (objective_diag st)
      else Inr 0)"

definition objective_l1 :: "cp \<Rightarrow> real \<Rightarrow> real" where
  "objective_l1 st obj =
     (case l1_weights st of
        Some w \<Rightarrow>
          acc_loop (\<lambda>v. w v * \<bar>rX st (comp_assign st v) - Yl1_at st v\<bar>) [0 ..< this_V st] obj
      | None \<Rightarrow>
          if homo_l1_weight st \<noteq> 0
          then obj + homo_l1_weight st
                 * fold (\<lambda>rv l1. acc_loop (\<lambda>v. \<bar>rX st rv - Yl1_at st (comp_list st v)\<bar>)
                                    (seg st rv) l1)
                     [0 ..< rV st] 0
          else obj)"

definition compute_objective :: "sentinels \<Rightarrow> (cp \<Rightarrow> real) \<Rightarrow> cp \<Rightarrow> ub + real" where
  "compute_objective S compute_graph_d1 st =
     (case objective_quadratic S st of
        Inl e \<Rightarrow> Inl e
      | Inr obj \<Rightarrow> Inr (objective_l1 st (obj + compute_graph_d1 st)))"

text \<open>
  The three terms as the specification words them, over the vertices. \<open>vertex_value st v\<close> is the
  value of vertex \<open>v\<close>. The partition is well formed when \<^verbatim>\<open>first_vertex\<close> starts at
  \<open>0\<close>, does not decrease and ends at \<open>V\<close>, \<^verbatim>\<open>comp_list\<close> lists every vertex once, and
  \<^verbatim>\<open>comp_assign\<close> maps the vertices listed for a component to it. The quadratic term
  is half the squared norm of the residual in the direct shape and
  \<open>1/2 x\<^sup>t (A\<^sup>t A) x - x\<^sup>t (A\<^sup>t Y)\<close> in the premultiplied shapes, where \<open>A\<^sup>t A\<close> is the
  stored \<open>V \<times> V\<close> matrix, the stored diagonal, or \<^verbatim>\<open>a\<close> times the identity, and \<open>A\<^sup>t Y\<close>
  is the stored observation. In the full shape the stored matrix is symmetric.
\<close>

definition vertex_value :: "cp \<Rightarrow> nat \<Rightarrow> real" where
  "vertex_value st v = rX st (comp_assign st v)"

definition wf_partition :: "cp \<Rightarrow> bool" where
  "wf_partition st =
     (first_vertex st 0 = 0
      \<and> unat (first_vertex st (rV st)) = this_V st
      \<and> (\<forall>rv \<in> set [0 ..< rV st]. first_vertex st rv \<le> first_vertex st (Suc rv))
      \<and> bij_betw (comp_list st) {..< this_V st} {..< this_V st}
      \<and> (\<forall>rv \<in> set [0 ..< rV st]. \<forall>i \<in> set (seg st rv). comp_assign st (comp_list st i) = rv))"

definition spec_quadratic :: "sentinels \<Rightarrow> cp \<Rightarrow> real" where
  "spec_quadratic S st =
     (if \<not> IS_ATA S (this_N st) then
        (case this_R st of
           Some b \<Rightarrow> (1 / 2) * (\<Sum>n < unat (this_N st). (cont b n)\<^sup>2)
         | None \<Rightarrow> 0)
      else if this_N st = FULL_ATA S then
        (case this_A st of
           Some Am \<Rightarrow>
             (1 / 2) * (\<Sum>u < this_V st. \<Sum>v < this_V st. vertex_value st u * Am (this_V st * u + v) * vertex_value st v)
             - (\<Sum>u < this_V st. vertex_value st u * Y_at st u)
         | None \<Rightarrow> 0)
      else
        (case this_A st of
           Some Am \<Rightarrow>
             (1 / 2) * (\<Sum>v < this_V st. vertex_value st v * Am v * vertex_value st v)
             - (\<Sum>v < this_V st. vertex_value st v * Y_at st v)
         | None \<Rightarrow>
             if this_a st \<noteq> 0
             then (1 / 2) * (\<Sum>v < this_V st. vertex_value st v * this_a st * vertex_value st v)
                  - (\<Sum>v < this_V st. vertex_value st v * Y_at st v)
             else 0))"

definition spec_l1 :: "cp \<Rightarrow> real" where
  "spec_l1 st = (\<Sum>v < this_V st. L1_WEIGHTS_at st v * \<bar>vertex_value st v - Yl1_at st v\<bar>)"

definition symmetric_operator :: "sentinels \<Rightarrow> cp \<Rightarrow> bool" where
  "symmetric_operator S st =
     (if this_N st = FULL_ATA S then
        (case this_A st of
           Some Am \<Rightarrow> \<forall>u \<in> {..< this_V st}. \<forall>v \<in> {..< this_V st}.
                        Am (this_V st * u + v) = Am (this_V st * v + u)
         | None \<Rightarrow> True)
      else True)"

text \<open>
  The buffers that the quadratic term reads are in place: in the direct shape the
  residual buffer holds \<^verbatim>\<open>N\<close> entries, and in the full premultiplied shape the operator
  array is there unless the graph has no vertex.
\<close>

definition quadratic_stored :: "sentinels \<Rightarrow> cp \<Rightarrow> bool" where
  "quadratic_stored S st =
     (if \<not> IS_ATA S (this_N st) then
        unat (this_N st) = 0
        \<or> (case this_R st of Some b \<Rightarrow> unat (this_N st) \<le> len b | None \<Rightarrow> False)
      else if this_N st = FULL_ATA S then this_A st \<noteq> None \<or> this_V st = 0
      else True)"

section \<open>The split step\<close>

text \<open>
  \<^verbatim>\<open>split\<close>, lines 462 to 663. First the gradient, a buffer of \<open>V\<close> entries initialised
  to zero: the quadratic term by the shape, then the differentiable contribution of
  the active edges, then that of the l1 term.
\<close>

definition grad_quadratic :: "sentinels \<Rightarrow> cp \<Rightarrow> ub + real arr" where
  "grad_quadratic S st =
     (if \<not> IS_ATA S (this_N st) then
        (if this_V st = 0 \<or> unat (this_N st) = 0 then Inr (\<lambda>v. 0)
         else case this_A st of
             None \<Rightarrow> Inl Null_read
           | Some Am \<Rightarrow>
               (case this_R st of
                  None \<Rightarrow> Inl Null_read
                | Some b \<Rightarrow>
                    if len b < unat (this_N st) then Inl Out_of_bounds
                    else Inr (\<lambda>v. if v < this_V st
                                  then fold (\<lambda>n g. g - Am (unat (this_N st) * v + n) * cont b n)
                                         [0 ..< unat (this_N st)] 0
                                  else 0)))
      else if this_N st = FULL_ATA S then
        (case this_A st of
           None \<Rightarrow>
             if 0 < this_V st \<and> list_ex (\<lambda>rv. rX st rv \<noteq> 0 \<and> seg st rv \<noteq> []) [0 ..< rV st]
             then Inl Null_read
             else Inr (\<lambda>u. if u < this_V st then 0 - Y_at st u else 0)
         | Some Am \<Rightarrow>
             Inr (\<lambda>u. if u < this_V st
                      then fold (\<lambda>rv g. if rX st rv = 0 then g
                                        else g + acc_loop (\<lambda>v. Am (this_V st * u + comp_list st v))
                                                   (seg st rv) 0 * rX st rv)
                             [0 ..< rV st] 0 - Y_at st u
                      else 0))
      else
        (case this_A st of
           Some Am \<Rightarrow> Inr (\<lambda>v. if v < this_V st then Am v * rX st (comp_assign st v) - Y_at st v
                                else 0)
         | None \<Rightarrow>
             if this_a st \<noteq> 0
             then Inr (\<lambda>v. if v < this_V st then rX st (comp_assign st v) - Y_at st v else 0)
             else Inr (\<lambda>v. 0)))"

definition out_edges :: "cp \<Rightarrow> nat \<Rightarrow> nat list" where
  \<comment> \<open>\<^verbatim>\<open>for (e = first_edge[v]; e < first_edge[v + 1]; e++)\<close>\<close>
  "out_edges st v = [unat (first_edge st v) ..< unat (first_edge st (Suc v))]"

definition grad_d1 :: "cp \<Rightarrow> real arr \<Rightarrow> real arr" where
  "grad_d1 st g0 =
     fold (\<lambda>u g.
        fold (\<lambda>e g.
           if is_active st e then
             (let v = adj_vertices st e;
                  d = (if rX st (comp_assign st u) > rX st (comp_assign st v)
                       then EDGE_WEIGHTS_at st e else - EDGE_WEIGHTS_at st e);
                  g1 = g(u := g u + d)
              in g1(v := g1 v - d))
           else g)
          (out_edges st u) g)
       [0 ..< this_V st] g0"

definition grad_l1 :: "cp \<Rightarrow> real arr \<Rightarrow> real arr" where
  "grad_l1 st g0 =
     (if l1_weights st \<noteq> None \<or> homo_l1_weight st \<noteq> 0 then
        fold (\<lambda>rv g.
           fold (\<lambda>i g.
              let v = comp_list st i
              in if rX st rv > Yl1_at st v then g(v := g v + L1_WEIGHTS_at st v)
                 else if rX st rv < Yl1_at st v then g(v := g v - L1_WEIGHTS_at st v)
                 else g)
             (seg st rv) g)
          [0 ..< rV st] g0
      else g0)"

definition gradient :: "sentinels \<Rightarrow> cp \<Rightarrow> ub + real arr" where
  "gradient S st =
     (case grad_quadratic S st of
        Inl e \<Rightarrow> Inl e
      | Inr g \<Rightarrow> Inr (grad_l1 st (grad_d1 st g)))"

text \<open>
  The operations of the min-cut engine. Modelled from the spec: terminal capacities
  can be set and added to, the two capacities of an edge can be set, a solve call
  restricted to a vertex subset computes the sides of a cut, and the side of a vertex
  can be queried. The solver itself is the parameter \<open>eng\<close>; the sides it returns
  are a function of the capacities configured when it is called and of the subset.
\<close>

type_synonym mincut = "ext arr \<Rightarrow> (real \<times> real) arr \<Rightarrow> nat list \<Rightarrow> bool arr"

definition ext_plus :: "ext \<Rightarrow> real \<Rightarrow> ext" where
  "ext_plus c x = (case c of Fin y \<Rightarrow> Fin (y + x) | NInf \<Rightarrow> NInf | PInf \<Rightarrow> PInf)"

definition set_term_capacities :: "cp \<Rightarrow> nat \<Rightarrow> ext \<Rightarrow> cp" where
  \<comment> \<open>Modelled from the spec: the engine sets the terminal capacity of a vertex.\<close>
  "set_term_capacities st v c = st\<lparr>term_cap := (term_cap st)(v := c)\<rparr>"

definition add_term_capacities :: "cp \<Rightarrow> nat \<Rightarrow> real \<Rightarrow> cp" where
  \<comment> \<open>Modelled from the spec: the engine adds to the terminal capacity of a vertex.\<close>
  "add_term_capacities st v x = st\<lparr>term_cap := (term_cap st)(v := ext_plus (term_cap st v) x)\<rparr>"

definition set_edge_capacities :: "cp \<Rightarrow> nat \<Rightarrow> real \<Rightarrow> real \<Rightarrow> cp" where
  \<comment> \<open>Modelled from the spec: the engine sets the two capacities of an edge.\<close>
  "set_edge_capacities st e c r = st\<lparr>edge_cap := (edge_cap st)(e := (c, r))\<rparr>"

definition maxflow :: "mincut \<Rightarrow> cp \<Rightarrow> nat list \<Rightarrow> cp" where
  \<comment> \<open>Modelled from the spec: the solve call of the engine on a vertex subset.\<close>
  "maxflow eng st vs =
     st\<lparr>sink := eng (term_cap st) (edge_cap st) vs, solves := Suc (solves st)\<rparr>"

definition is_sink :: "cp \<Rightarrow> nat \<Rightarrow> bool" where
  \<comment> \<open>Modelled from the spec: the side-of-cut query of the engine.\<close>
  "is_sink st v = sink st v"

text \<open>
  The vertices of a component in the order of \<^verbatim>\<open>comp_list\<close>, and its edges: every
  vertex with each of its outgoing edges, in the order the two nested loops visit them.
\<close>

definition comp_vertices :: "cp \<Rightarrow> nat \<Rightarrow> nat list" where
  "comp_vertices st rv = map (comp_list st) (seg st rv)"

definition comp_edges :: "cp \<Rightarrow> nat \<Rightarrow> (nat \<times> nat) list" where
  "comp_edges st rv = concat (map (\<lambda>v. map (\<lambda>e. (v, e)) (out_edges st v)) (comp_vertices st rv))"

definition set_d1_capacities :: "(nat \<times> nat) list \<Rightarrow> cp \<Rightarrow> cp" where
  \<comment> \<open>set the d1 edge capacities\<close>
  "set_d1_capacities es st =
     fold (\<lambda>(v, e) s. if \<not> is_active s e
                       then set_edge_capacities s e (EDGE_WEIGHTS_at s e) (EDGE_WEIGHTS_at s e)
                       else s) es st"

definition activate_cut :: "(nat \<times> nat) list \<Rightarrow> cp \<times> index_t \<Rightarrow> cp \<times> index_t" where
  \<comment> \<open>activate edges correspondingly\<close>
  "activate_cut es = fold (\<lambda>(v, e) (s, n).
       if \<not> is_active s e \<and> is_sink s v \<noteq> is_sink s (adj_vertices s e)
       then (set_active s e, n + 1) else (s, n)) es"

text \<open>
  The blocks of one cut, named after the comments that head them in the source.
\<close>

definition source_sink_capacities :: "real arr \<Rightarrow> nat list \<Rightarrow> cp \<Rightarrow> cp" where
  \<comment> \<open>set the source/sink capacities\<close>
  "source_sink_capacities g vs st = fold (\<lambda>v s. set_term_capacities s v (Fin (g v))) vs st"

definition l1_positive :: "nat \<Rightarrow> nat list \<Rightarrow> cp \<Rightarrow> cp" where
  \<comment> \<open>l1 contribution is positive at zero\<close>
  "l1_positive rv vs st =
     (if l1_weights st \<noteq> None \<or> homo_l1_weight st \<noteq> 0
      then fold (\<lambda>v s. if rX s rv = Yl1_at s v
                        then add_term_capacities s v (L1_WEIGHTS_at s v) else s) vs st
      else st)"

definition l1_negative :: "nat \<Rightarrow> nat list \<Rightarrow> cp \<Rightarrow> cp" where
  \<comment> \<open>l1 contribution is negative at zero\<close>
  "l1_negative rv vs st =
     (if l1_weights st \<noteq> None \<or> homo_l1_weight st \<noteq> 0
      then fold (\<lambda>v s. if rX s rv = Yl1_at s v
                        then add_term_capacities s v (- L1_WEIGHTS_at s v) else s) vs st
      else st)"

definition upper_bound_capacities :: "nat \<Rightarrow> nat list \<Rightarrow> cp \<Rightarrow> cp" where
  \<comment> \<open>box constraint contribution is infinite at the upper bound\<close>
  "upper_bound_capacities rv vs st =
     (case upp_bnd st of
        Some ub \<Rightarrow> fold (\<lambda>v s. if Fin (rX s rv) = ub v
                                then set_term_capacities s v PInf else s) vs st
      | None \<Rightarrow>
          if homo_upp_bnd st < PInf \<and> Fin (rX st rv) = homo_upp_bnd st
          then fold (\<lambda>v s. set_term_capacities s v PInf) vs st
          else st)"

definition lower_bound_capacities :: "nat \<Rightarrow> nat list \<Rightarrow> cp \<Rightarrow> cp" where
  \<comment> \<open>box constraint contribution is infinite at the lower bound\<close>
  "lower_bound_capacities rv vs st =
     (case low_bnd st of
        Some lb \<Rightarrow> fold (\<lambda>v s. if Fin (rX s rv) = lb v
                                then set_term_capacities s v NInf else s) vs st
      | None \<Rightarrow>
          if homo_low_bnd st > NInf \<and> Fin (rX st rv) = homo_low_bnd st
          then fold (\<lambda>v s. set_term_capacities s v NInf) vs st
          else st)"

definition first_cut :: "mincut \<Rightarrow> real arr \<Rightarrow> nat \<Rightarrow> cp \<Rightarrow> cp \<times> index_t" where
  \<comment> \<open>first cut: directions \<open>+1_U\<close>\<close>
  "first_cut eng g rv st =
     (let vs = comp_vertices st rv;
          es = comp_edges st rv;
          st1 = source_sink_capacities g vs st;
          st2 = l1_positive rv vs st1;
          st3 = upper_bound_capacities rv vs st2;
          st4 = set_d1_capacities es st3;
          st5 = maxflow eng st4 vs
      in activate_cut es (st5, 0))"

definition second_cut :: "mincut \<Rightarrow> real arr \<Rightarrow> nat \<Rightarrow> cp \<Rightarrow> index_t \<Rightarrow> cp \<times> index_t" where
  \<comment> \<open>second cut: directions \<open>-1_U\<close>\<close>
  "second_cut eng g rv st rv_activation =
     (let vs = comp_vertices st rv;
          es = comp_edges st rv;
          st1 = source_sink_capacities g vs st;
          st2 = l1_negative rv vs st1;
          st3 = lower_bound_capacities rv vs st2;
          st4 = set_d1_capacities es st3;
          st5 = maxflow eng st4 vs
      in activate_cut es (st5, rv_activation))"

text \<open>
  The test of lines 595 and 596: no nondifferentiable part besides the total
  variation.
\<close>

definition only_d1 :: "cp \<Rightarrow> bool" where
  "only_d1 st =
     (l1_weights st = None \<and> homo_l1_weight st = 0 \<and> low_bnd st = None \<and> upp_bnd st = None
      \<and> homo_low_bnd st = NInf \<and> homo_upp_bnd st = PInf)"

definition split_component ::
  "mincut \<Rightarrow> real arr \<Rightarrow> nat \<Rightarrow> cp \<times> index_t \<Rightarrow> cp \<times> index_t" where
  "split_component eng g rv = (\<lambda>(st, activation).
     if is_saturated st rv then (st, activation)
     else let (st1, n1) = first_cut eng g rv st
          in if only_d1 st1
             then (set_saturation st1 rv (n1 = 0), activation + n1)
             else let (st2, n2) = second_cut eng g rv st1 n1
                  in (set_saturation st2 rv (n2 = 0), activation + n2))"

definition split_upto :: "mincut \<Rightarrow> real arr \<Rightarrow> cp \<Rightarrow> nat \<Rightarrow> cp \<times> index_t" where
  \<comment> \<open>the loop over the components, stopped before component \<open>k\<close>\<close>
  "split_upto eng g st k = fold (split_component eng g) [0 ..< k] (st, 0)"

definition split :: "sentinels \<Rightarrow> mincut \<Rightarrow> cp \<Rightarrow> ub + (cp \<times> index_t)" where
  "split S eng st =
     (case gradient S st of
        Inl e \<Rightarrow> Inl e
      | Inr g \<Rightarrow> Inr (split_upto eng g st (rV st)))"

fun split_repeat :: "sentinels \<Rightarrow> mincut \<Rightarrow> nat \<Rightarrow> cp \<Rightarrow> ub + cp" where
  "split_repeat S eng 0 st = Inr st"
| "split_repeat S eng (Suc k) st =
     (case split S eng st of
        Inl e \<Rightarrow> Inl e
      | Inr (st1, n) \<Rightarrow> split_repeat S eng k st1)"

text \<open>
  The two-cut path: the same step without the shortcut of lines 595 to 600, so that
  the second cut is always computed.
\<close>

definition split_component_two_cuts ::
  "mincut \<Rightarrow> real arr \<Rightarrow> nat \<Rightarrow> cp \<times> index_t \<Rightarrow> cp \<times> index_t" where
  "split_component_two_cuts eng g rv = (\<lambda>(st, activation).
     if is_saturated st rv then (st, activation)
     else let (st1, n1) = first_cut eng g rv st;
              (st2, n2) = second_cut eng g rv st1 n1
          in (set_saturation st2 rv (n2 = 0), activation + n2))"

definition split_two_cuts :: "sentinels \<Rightarrow> mincut \<Rightarrow> cp \<Rightarrow> ub + (cp \<times> index_t)" where
  "split_two_cuts S eng st =
     (case gradient S st of
        Inl e \<Rightarrow> Inl e
      | Inr g \<Rightarrow> Inr (fold (split_component_two_cuts eng g) [0 ..< rV st] (st, 0)))"

text \<open>
  For the results on the split step: \<open>static\<close> blanks the fields that the step writes,
  so that two objects with the same \<open>static\<close> agree on graph, partition, values and
  configuration; \<open>kept\<close> is what the preparation of a cut leaves alone.
\<close>

definition static :: "cp \<Rightarrow> cp" where
  "static st = st\<lparr>active := {}, saturated := (\<lambda>rv. False), term_cap := (\<lambda>v. Fin 0),
                  edge_cap := (\<lambda>e. (0, 0)), sink := (\<lambda>v. False), solves := 0\<rparr>"

definition kept :: "cp \<Rightarrow> cp \<times> nat set \<times> bool arr" where
  "kept st = (static st, active st, saturated st)"

text \<open>
  The edges a component owns (the outgoing edges of its vertices), and the partition
  property that no edge is owned by two components.
\<close>

definition owned_edges :: "cp \<Rightarrow> nat \<Rightarrow> nat set" where
  "owned_edges st rv = snd ` set (comp_edges st rv)"

definition disjoint_components :: "cp \<Rightarrow> bool" where
  "disjoint_components st =
     (\<forall>rv1 \<in> set [0 ..< rV st]. \<forall>rv2 \<in> set [0 ..< rV st].
        rv1 \<noteq> rv2 \<longrightarrow> owned_edges st rv1 \<inter> owned_edges st rv2 = {})"

text \<open>
  The network of a cut when only the total variation is nondifferentiable: the
  terminal capacities from the gradient, the capacities of the inactive edges from
  the weights, and the solve.
\<close>

definition prepared :: "mincut \<Rightarrow> real arr \<Rightarrow> nat \<Rightarrow> cp \<Rightarrow> cp" where
  "prepared eng g rv st =
     maxflow eng (set_d1_capacities (comp_edges st rv)
                    (source_sink_capacities g (comp_vertices st rv) st))
       (comp_vertices st rv)"

definition gradient_terminals :: "real arr \<Rightarrow> nat \<Rightarrow> cp \<Rightarrow> ext arr" where
  "gradient_terminals g rv st =
     (\<lambda>u. if u \<in> set (comp_vertices st rv) then Fin (g u) else term_cap st u)"

definition d1_capacities :: "nat \<Rightarrow> cp \<Rightarrow> (real \<times> real) arr" where
  "d1_capacities rv st =
     (\<lambda>e. if e \<in> owned_edges st rv \<and> e \<notin> active st
          then (EDGE_WEIGHTS_at st e, EDGE_WEIGHTS_at st e) else edge_cap st e)"

text \<open>
  The sum of a quantity over the members of a component.
\<close>

definition over_component :: "cp \<Rightarrow> nat \<Rightarrow> (nat \<Rightarrow> real) \<Rightarrow> real" where
  "over_component st rv f = sum_list (map (\<lambda>i. f (comp_list st i)) (seg st rv))"

definition reduced_AA :: "cp \<Rightarrow> real arr \<Rightarrow> nat \<Rightarrow> nat \<Rightarrow> real" where
  \<comment> \<open>entry \<open>(ru, rv)\<close> of the premultiplied operator summed over two components\<close>
  "reduced_AA st Am ru rv =
     over_component st ru (\<lambda>u. over_component st rv (\<lambda>v. Am (this_V st * u + v)))"

section \<open>Small instances\<close>

text \<open>
  The concrete objects on which the results below are instantiated. \<open>S0\<close> takes
  \<open>0\<close> and \<open>2^64 - 1\<close> for the two sentinels and \<^verbatim>\<open>double\<close> for \<^verbatim>\<open>real_t\<close>. \<open>cp0\<close> is a
  graph of two vertices joined by one edge, both in one component, freshly
  constructed.
\<close>

definition S0 :: sentinels where
  "S0 = \<lparr>FULL_ATA = 0, DIAG_ATA = - 1, real_t = Float64\<rparr>"

definition heap0 :: heap where
  "heap0 = \<lparr>allocated = 0, freed = {}, junk = (\<lambda>b n. 0)\<rparr>"

definition base0 :: cp where
  "base0 =
     \<lparr>this_V = 2,
      first_edge = (\<lambda>v. if v = 0 then 0 else 1),
      adj_vertices = (\<lambda>e. 1),
      edge_weights = None,
      homo_edge_weight = 1,
      rV = 1,
      first_vertex = (\<lambda>rv. if rv = 0 then 0 else 2),
      comp_list = (\<lambda>i. i),
      comp_assign = (\<lambda>v. 0),
      rX = (\<lambda>rv. 0),
      last_rX = (\<lambda>rv. 0),
      tmp_comp_assign = (\<lambda>v. 0),
      active = {},
      saturated = (\<lambda>rv. False),
      term_cap = (\<lambda>v. Fin 0), edge_cap = (\<lambda>e. (0, 0)), sink = (\<lambda>v. False), solves = 0,
      eps = 1 / 1000000,
      dif_tol = 1 / 1000,
      monitor_evolution = False,
      this_Y = None, Yl1 = None, this_A = None, this_R = None,
      this_N = 0, this_a = 0,
      l1_weights = None, homo_l1_weight = 0,
      low_bnd = None, homo_low_bnd = NInf,
      upp_bnd = None, homo_upp_bnd = PInf,
      pfdr_rho = 0, pfdr_cond_min = 0, pfdr_dif_rcd = 0, pfdr_dif_tol = 0,
      pfdr_it = 0, pfdr_it_max = 0,
      mem = heap0\<rparr>"

definition cp0 :: cp where
  "cp0 = Cp_d1_ql1b S0 base0"

text \<open>
  \<open>sel0\<close> is a selection utility that returns the first value of the segment.
  \<open>cp_box\<close> has the identity operator, observations \<open>1, 1\<close> and the homogeneous box
  \<open>[2, 3]\<close>. \<open>cp_boxes\<close> has the per-vertex boxes \<open>[5, 10]\<close> and \<open>[0, 3]\<close> instead:
  each is a proper interval, and no value lies in both.
\<close>

definition sel0 :: selection where
  "sel0 = \<lparr>wth_element = (\<lambda>xs t h w. (t (hd xs), xs)),
           nth_element_idx = (\<lambda>xs t k. (t (hd xs), xs))\<rparr>"

definition cp_box :: cp where
  "cp_box = cp0\<lparr>this_Y := Some (\<lambda>v. 1), homo_low_bnd := Fin 2, homo_upp_bnd := Fin 3\<rparr>"

definition cp_boxes :: cp where
  "cp_boxes = cp0\<lparr>this_Y := Some (\<lambda>v. 1),
                  low_bnd := Some (\<lambda>v. if v = 0 then Fin 5 else Fin 0),
                  upp_bnd := Some (\<lambda>v. if v = 0 then Fin 10 else Fin 3)\<rparr>"

text \<open>
  \<open>cp_two\<close> has the two vertices in two components and a direct operator with two
  observations; \<open>cp_upp\<close> adds an upper-bound array, \<open>cp_low\<close> a lower-bound array.
\<close>

definition cp_two :: cp where
  "cp_two = cp0\<lparr>rV := 2, first_vertex := (\<lambda>rv. word_of_nat rv), comp_assign := (\<lambda>v. v),
                this_N := 2, this_A := Some (\<lambda>i. 1), this_Y := Some (\<lambda>n. 1),
                this_R := Some \<lparr>blk = 0, len = 2, cont = (\<lambda>n. 0)\<rparr>\<rparr>"

definition cp_upp :: cp where
  "cp_upp = cp_two\<lparr>upp_bnd := Some (\<lambda>v. Fin 3)\<rparr>"

definition cp_low :: cp where
  "cp_low = cp_two\<lparr>low_bnd := Some (\<lambda>v. Fin (real v))\<rparr>"

text \<open>
  \<open>cp_inf\<close> is \<open>cp_two\<close> with both homogeneous bounds at \<open>+\<infinity>\<close>, which \<^verbatim>\<open>set_bounds\<close>
  accepts. \<open>cp_scaled\<close> is in the scaled-identity shape with \<^verbatim>\<open>a = 2\<close>, observations
  \<open>1, 1\<close> and the value \<open>1\<close> on its one component.
\<close>

definition cp_inf :: cp where
  "cp_inf = cp_two\<lparr>homo_low_bnd := PInf, homo_upp_bnd := PInf\<rparr>"

definition cp_scaled :: cp where
  "cp_scaled = cp0\<lparr>this_a := 2, this_Y := Some (\<lambda>v. 1), rX := (\<lambda>rv. 1)\<rparr>"

text \<open>
  \<open>cp_it1\<close> has ten observations and a last inner solve that took one iteration, under
  the default cap of \<open>10000\<close>; \<open>cp_it3\<close> has two observations, a cap of three iterations
  and a last solve that took all three.
\<close>

definition cp_it1 :: cp where
  "cp_it1 = cp_two\<lparr>this_N := 10, this_R := Some \<lparr>blk = 0, len = 10, cont = (\<lambda>n. 0)\<rparr>,
                   pfdr_it := 1\<rparr>"

definition cp_it3 :: cp where
  "cp_it3 = cp_two\<lparr>pfdr_it := 3, pfdr_it_max := 3\<rparr>"

text \<open>
  \<open>cp_same\<close> has the value \<open>1\<close> on its one component now and in the previous round, and
  the component is not saturated; in \<open>cp_sat\<close> it is saturated.
\<close>

definition cp_same :: cp where
  "cp_same = cp0\<lparr>rX := (\<lambda>rv. 1), last_rX := (\<lambda>rv. 1)\<rparr>"

definition cp_sat :: cp where
  "cp_sat = cp_same\<lparr>saturated := (\<lambda>rv. True)\<rparr>"

text \<open>
  Two min-cut engines: \<open>eng_cut\<close> always puts vertex \<open>1\<close> alone on the sink side,
  \<open>eng_none\<close> puts every vertex on the source side.
\<close>

definition eng_cut :: mincut where
  "eng_cut tc ec vs = (\<lambda>v. v = 1)"

definition eng_none :: mincut where
  "eng_none tc ec vs = (\<lambda>v. False)"

text \<open>
  \<open>cp_obj\<close> has three vertices, the first two in one component with value \<open>1\<close> and the
  third alone with value \<open>2\<close>, a full premultiplied operator with \<open>2\<close> on the diagonal and
  \<open>1\<close> next to it, observations and l1 weights all \<open>1\<close>, and no l1 target. \<open>d1_obj\<close>
  is the total variation of its one edge between the two components.
\<close>

definition cp_obj :: cp where
  "cp_obj = cp0\<lparr>this_V := 3, rV := 2,
                first_vertex := (\<lambda>rv. if rv = 0 then 0 else if rv = 1 then 2 else 3),
                comp_assign := (\<lambda>v. if v < 2 then 0 else 1),
                rX := (\<lambda>rv. if rv = 0 then 1 else 2),
                this_N := 0,
                this_A := Some (\<lambda>i. [2, 1, 0, 1, 2, 1, 0, 1, 2] ! i),
                this_Y := Some (\<lambda>v. 1),
                l1_weights := Some (\<lambda>v. 1)\<rparr>"

definition d1_obj :: "cp \<Rightarrow> real" where
  "d1_obj st = homo_edge_weight st * \<bar>rX st 0 - rX st 1\<bar>"

section \<open>Configuration: results\<close>


lemma IS_ATA_FULL: "IS_ATA S (FULL_ATA S)"
  by (simp add: IS_ATA_def)


lemma this_N_constructed: "this_N (Cp_d1_ql1b S st) = DIAG_ATA S \<and> this_R (Cp_d1_ql1b S st) = None"
  by (simp add: Cp_d1_ql1b_def)

lemma sizeof_real_t_cases: "unat (sizeof_real_t S) = 4 \<or> unat (sizeof_real_t S) = 8"
  by (cases "real_t S") (simp_all add: sizeof_real_t_def)

lemma entries_exact:
  assumes "unat (sizeof_real_t S) * unat n < 2 ^ 64"
  shows "entries S (sizeof_real_t S * n) = unat n"
proof -
  have "unat (sizeof_real_t S) * unat n < 2 ^ LENGTH(64)"
    using assms by simp
  then have "unat (sizeof_real_t S * n) = unat (sizeof_real_t S) * unat n"
    by (rule unat_mult_lem [THEN iffD1])
  moreover have "0 < unat (sizeof_real_t S)"
    using sizeof_real_t_cases [of S] by auto
  ultimately show ?thesis
    by (simp add: entries_def)
qed


lemma sizeof_S0: "sizeof_real_t S0 = 8"
  by (simp add: sizeof_real_t_def S0_def)


text \<open>
  Where the product wraps the block is shorter than \<^verbatim>\<open>N\<close>: for \<open>N = 2^61\<close> entries of
  eight bytes the request is for no byte at all.
\<close>

lemma set_quadratic_wrapped:
  "map_option len (this_R (set_quadratic S0 cp0 None (2 ^ 61) (Some (\<lambda>i. 1)) 0)) = Some 0"
proof -
  have w: "(8 :: size_t) * 2 ^ 61 = 0"
    by simp
  have n: "\<not> IS_ATA S0 (2 ^ 61)"
    by (simp add: IS_ATA_def S0_def)
  show ?thesis
    using n by (simp add: set_quadratic_def Let_def malloc_check_def entries_def sizeof_S0 w)
qed

text \<open>
  Claim C8. \<^verbatim>\<open>set_l1\<close> ends the process exactly when there is no weight array and the
  homogeneous weight is negative; \<^verbatim>\<open>set_bounds\<close> exactly when there is neither bound
  array and the homogeneous lower bound is above the upper one. The violation is
  reported with the offending values and the object is the one the setter was called
  on: no field has been written. Every other input stores the arguments.
\<close>

theorem setters_fatal:
  "(isl (set_l1 st w h y) \<longleftrightarrow> (w = None \<and> h < 0))
   \<and> (w = None \<and> h < 0 \<longrightarrow> set_l1 st w h y = Inl (Negative_l1 h, st))
   \<and> (\<not> (w = None \<and> h < 0) \<longrightarrow>
        set_l1 st w h y = Inr (st\<lparr>l1_weights := w, homo_l1_weight := h, Yl1 := y\<rparr>))
   \<and> (isl (set_bounds st lo hlo up hup) \<longleftrightarrow> (lo = None \<and> up = None \<and> hup < hlo))
   \<and> (lo = None \<and> up = None \<and> hup < hlo \<longrightarrow>
        set_bounds st lo hlo up hup = Inl (Low_above_upp hlo hup, st))
   \<and> (\<not> (lo = None \<and> up = None \<and> hup < hlo) \<longrightarrow>
        set_bounds st lo hlo up hup =
          Inr (st\<lparr>low_bnd := lo, homo_low_bnd := hlo, upp_bnd := up, homo_upp_bnd := hup\<rparr>))"
  by (simp add: set_l1_def set_bounds_def)

theorem setters_fatal_witness:
  "set_l1 cp0 None (- 1) None = Inl (Negative_l1 (- 1), cp0)
   \<and> set_bounds cp0 None (Fin 2) None (Fin 1) = Inl (Low_above_upp (Fin 2) (Fin 1), cp0)
   \<and> \<not> isl (set_l1 cp0 (Some (\<lambda>v. - 1)) (- 1) None)
   \<and> \<not> isl (set_bounds cp0 (Some (\<lambda>v. Fin 2)) (Fin 2) None (Fin 1))"
proof -
  have l: "(Fin 1 :: ext) < Fin 2"
    by (simp add: less_ext_def)
  show ?thesis
    using l setters_fatal [of cp0 None "- 1" None None "Fin 2" None "Fin 1"]
      setters_fatal [of cp0 "Some (\<lambda>v. - 1)" "- 1" None "Some (\<lambda>v. Fin 2)" "Fin 2" None "Fin 1"]
    by simp
qed

section \<open>Loops as sums, maxima and minima\<close>

lemma acc_loop_sum_list: "acc_loop g xs s = s + sum_list (map g xs)"
  unfolding acc_loop_def by (induction xs arbitrary: s) simp_all

lemma acc_loop_upt: "acc_loop g [m ..< n] s = s + (\<Sum>i = m ..< n. g i)"
  by (simp add: acc_loop_sum_list interv_sum_list_conv_sum_set_nat)

lemma acc_loop_lessThan: "acc_loop g [0 ..< n] 0 = (\<Sum>i < n. g i)"
  by (simp add: acc_loop_upt atLeast0LessThan)

lemma fold_running_max:
  fixes f :: "'i \<Rightarrow> 'a :: linorder"
  shows "fold (\<lambda>v low. if low < f v then f v else low) xs a = Max (insert a (f ` set xs))"
proof (induction xs arbitrary: a)
  case Nil
  then show ?case by simp
next
  case (Cons x xs)
  have "(if a < f x then f x else a) = max a (f x)"
    by (auto simp: max_def)
  then have "fold (\<lambda>v low. if low < f v then f v else low) (x # xs) a
      = Max (insert (max a (f x)) (f ` set xs))"
    using Cons.IH [of "max a (f x)"] by simp
  also have "\<dots> = Max (insert a (f ` set (x # xs)))"
  proof (cases "set xs = {}")
    case True
    then show ?thesis by (simp add: max.commute)
  next
    case False
    then show ?thesis
      by (simp add: Max_insert max.assoc)
  qed
  finally show ?case .
qed

lemma fold_running_min:
  fixes f :: "'i \<Rightarrow> 'a :: linorder"
  shows "fold (\<lambda>v upp. if upp > f v then f v else upp) xs a = Min (insert a (f ` set xs))"
proof (induction xs arbitrary: a)
  case Nil
  then show ?case by simp
next
  case (Cons x xs)
  have "(if a > f x then f x else a) = min a (f x)"
    by (auto simp: min_def)
  then have "fold (\<lambda>v upp. if upp > f v then f v else upp) (x # xs) a
      = Min (insert (min a (f x)) (f ` set xs))"
    using Cons.IH [of "min a (f x)"] by simp
  also have "\<dots> = Min (insert a (f ` set (x # xs)))"
  proof (cases "set xs = {}")
    case True
    then show ?thesis by (simp add: min.commute)
  next
    case False
    then show ?thesis
      by (simp add: Min_insert min.assoc)
  qed
  finally show ?case .
qed

lemma univertex_proj_min_max:
  "univertex_proj st x = min (univertex_upp st) (max (univertex_low st) x)"
  by (auto simp: univertex_proj_def Let_def min_def max_def)

section \<open>The univertex problem: results\<close>

lemma univertex_low_max: "univertex_low st = max_low st"
  by (simp add: univertex_low_def max_low_def fold_running_max atLeast0LessThan split: option.split)

lemma univertex_upp_min: "univertex_upp st = min_upp st"
  by (simp add: univertex_upp_def min_upp_def fold_running_min atLeast0LessThan split: option.split)

lemma fold_acc_loop_nested:
  "fold (\<lambda>u s. acc_loop (g u) xs s) us s0 = s0 + sum_list (map (\<lambda>u. sum_list (map (g u) xs)) us)"
  by (induction us arbitrary: s0) (simp_all add: acc_loop_sum_list)

lemma univertex_rA_sum: "univertex_rA st Am n = (\<Sum>v < this_V st. Am (n + unat (this_N st) * v))"
  by (simp add: univertex_rA_def acc_loop_lessThan)

lemma unit_coefficient_fields [simp]:
  "this_a (unit_coefficient st) = (if this_a st = 0 then 0 else 1)"
  "this_N (unit_coefficient st) = this_N st" "this_A (unit_coefficient st) = this_A st"
  "this_V (unit_coefficient st) = this_V st" "this_R (unit_coefficient st) = this_R st"
  "this_Y (unit_coefficient st) = this_Y st" "rX (unit_coefficient st) = rX st"
  "comp_assign (unit_coefficient st) = comp_assign st"
  by (simp_all add: unit_coefficient_def)

lemma quad_aa_unit:
  "quad_aa S (unit_coefficient st) =
     (if \<not> IS_ATA S (this_N st) then
        (case this_A st of
           Some Am \<Rightarrow> (\<Sum>n < unat (this_N st).
                          (\<Sum>v < this_V st. Am (n + unat (this_N st) * v))\<^sup>2)
         | None \<Rightarrow> 0)
      else if this_N st = FULL_ATA S then
        (case this_A st of
           Some Am \<Rightarrow> (\<Sum>u < this_V st. \<Sum>v < this_V st. Am (this_V st * u + v))
         | None \<Rightarrow> 0)
      else
        (case this_A st of
           Some Am \<Rightarrow> (\<Sum>v < this_V st. Am v)
         | None \<Rightarrow> if this_a st \<noteq> 0 then real (this_V st) else 0))"
  by (simp add: quad_aa_def split: option.split)

lemma univertex_y_aa_closed:
  assumes "univertex_y_aa S st = Inr (y, aa)"
  shows "y = quad_y S st \<and> aa = quad_aa S (unit_coefficient st)"
  using assms unfolding quad_aa_unit
  by (auto simp: univertex_y_aa_def quad_y_def acc_loop_sum_list univertex_rA_sum
      fold_acc_loop_nested interv_sum_list_conv_sum_set_nat atLeast0LessThan power2_eq_square Let_def
      split: if_splits option.splits)

lemma univertex_l1_closed:
  assumes "univertex_l1 sel st = (wl1, yl1, st1)"
  shows "wl1 = total_wl1 st \<and> yl1 = l1_median sel st"
  using assms
  by (auto simp: univertex_l1_def total_wl1_def l1_median_def acc_loop_sum_list
      interv_sum_list_conv_sum_set_nat atLeast0LessThan Let_def
      split: option.splits if_splits prod.splits)

lemma threshold_soft:
  "aa \<noteq> 0 \<Longrightarrow> univertex_threshold y aa wl1 m = Fin (soft_threshold y aa wl1 m)"
  by (simp add: univertex_threshold_def soft_threshold_def)

lemma solve_univertex_value:
  assumes "solve_univertex_problem S sel st = Inr (uX, st')"
  shows "uX = univertex_proj st
           (univertex_threshold (quad_y S st) (quad_aa S (unit_coefficient st)) (total_wl1 st)
              (l1_median sel st))"
proof -
  obtain y aa where ya: "univertex_y_aa S st = Inr (y, aa)"
    using assms by (auto simp: solve_univertex_problem_def split: sum.splits)
  obtain wl1 yl1 st1 where l1: "univertex_l1 sel st = (wl1, yl1, st1)"
    by (cases "univertex_l1 sel st") auto
  have "uX = univertex_proj st (univertex_threshold y aa wl1 yl1)"
    using assms ya l1
    by (auto simp: solve_univertex_problem_def Let_def split: sum.splits if_splits)
  then show ?thesis
    using univertex_y_aa_closed [OF ya] univertex_l1_closed [OF l1] by simp
qed

lemma univertex_l1_frame:
  assumes "univertex_l1 sel st = (wl1, yl1, st1)"
  shows "this_R st1 = this_R st \<and> this_N st1 = this_N st"
proof (cases "l1_weights st")
  case None
  then show ?thesis
    using assms
    by (cases "Yl1 st"; cases "homo_l1_weight st = 0")
      (auto simp: univertex_l1_def Let_def split: prod.splits)
next
  case (Some w)
  then show ?thesis
    using assms
    by (cases "Yl1 st") (auto simp: univertex_l1_def Let_def set_saturation_def split: prod.splits)
qed

text \<open>
  The method returns whenever the buffers that the shape reads and writes are in
  place: in the direct shape with observations, the operator array (unless there is no
  vertex), a byte count for \<^verbatim>\<open>rA\<close> that does not wrap and a residual buffer of \<^verbatim>\<open>N\<close>
  entries; in the full premultiplied shape, the operator array.
\<close>

lemma solve_univertex_returns:
  assumes "\<not> IS_ATA S (this_N st) \<and> unat (this_N st) \<noteq> 0 \<longrightarrow>
      (this_A st \<noteq> None \<or> this_V st = 0)
      \<and> unat (sizeof_real_t S) * unat (this_N st) < 2 ^ 64
      \<and> (\<exists>b. this_R st = Some b \<and> unat (this_N st) \<le> len b)"
    and "this_N st = FULL_ATA S \<longrightarrow> this_A st \<noteq> None \<or> this_V st = 0"
  shows "\<exists>uX st'. solve_univertex_problem S sel st = Inr (uX, st')"
proof -
  obtain wl1 yl1 st1 where l1: "univertex_l1 sel st = (wl1, yl1, st1)"
    by (cases "univertex_l1 sel st") auto
  have r: "this_R st1 = this_R st" "this_N st1 = this_N st"
    using univertex_l1_frame [OF l1] by simp_all
  show ?thesis
  proof (cases "IS_ATA S (this_N st)")
    case True
    have "\<not> isl (univertex_y_aa S st)"
    proof (cases "this_A st")
      case None
      then show ?thesis
        using True assms(2) by (simp add: univertex_y_aa_def Let_def)
    next
      case (Some Am)
      then show ?thesis
        using True by (simp add: univertex_y_aa_def Let_def)
    qed
    then obtain y aa where "univertex_y_aa S st = Inr (y, aa)"
      by (cases "univertex_y_aa S st") auto
    then show ?thesis
      using True l1 by (simp add: solve_univertex_problem_def)
  next
    case False
    show ?thesis
    proof (cases "unat (this_N st) = 0")
      case True
      then have "univertex_y_aa S st = Inr (0, 0)"
        using False by (simp add: univertex_y_aa_def)
      then show ?thesis
        using False True l1 r
        by (simp add: solve_univertex_problem_def univertex_residual_def)
    next
      case n: False
      then have pre: "this_A st \<noteq> None \<or> this_V st = 0"
        "unat (sizeof_real_t S) * unat (this_N st) < 2 ^ 64"
        "\<exists>b. this_R st = Some b \<and> unat (this_N st) \<le> len b"
        using assms(1) False by simp_all
      have e: "entries S (sizeof_real_t S * this_N st) = unat (this_N st)"
        by (rule entries_exact [OF pre(2)])
      have "\<not> isl (univertex_y_aa S st)"
        using False n pre(1) by (simp add: univertex_y_aa_def Let_def e)
      then obtain y aa where ya: "univertex_y_aa S st = Inr (y, aa)"
        by (cases "univertex_y_aa S st") auto
      obtain b where b: "this_R st1 = Some b" "unat (this_N st1) \<le> len b"
        using pre(3) r by auto
      have "\<exists>st2. univertex_residual st1 Am uX = Inr st2" for Am uX
        using b n r by (cases uX) (simp_all add: univertex_residual_def)
      then obtain st2 where "univertex_residual st1
          (case this_A st of Some Am \<Rightarrow> Am | None \<Rightarrow> (\<lambda>i. 0))
          (univertex_proj st (univertex_threshold y aa wl1 yl1)) = Inr st2"
        by blast
      then show ?thesis
        using False ya l1 by (simp add: solve_univertex_problem_def)
    qed
  qed
qed

text \<open>
  Claim C1, as the code has it. Whenever \<^verbatim>\<open>solve_univertex_problem\<close> returns, with a
  finite or an infinite value, the value is the soft threshold \<open>xs\<close> of the aggregates
  \<open>y = \<langle>A 1, Y\<rangle>\<close>, \<open>aa = \<parallel>A 1\<parallel>\<^sup>2\<close>, the total l1 weight and the median, projected
  first on the maximum of the lower bounds and then on the minimum of the upper
  bounds; in the scaled-identity shape \<open>aa\<close> is that of the identity whatever the
  nonzero \<^verbatim>\<open>a\<close>. For a nonzero \<open>aa\<close> the threshold is \<open>(y - wl1)/aa\<close>, \<open>(y + wl1)/aa\<close> or
  the median. A threshold above the upper bound returns the upper bound. A threshold
  below the lower bound returns the lower bound provided the lower bound is not above
  the upper one; a threshold within the bounds is returned as it is.
\<close>

theorem solve_univertex_closed_form:
  assumes "solve_univertex_problem S sel st = Inr (uX, st')"
    and "aa = quad_aa S (unit_coefficient st)"
    and "xs = univertex_threshold (quad_y S st) aa (total_wl1 st) (l1_median sel st)"
  shows "uX = min (min_upp st) (max (max_low st) xs)
    \<and> (aa \<noteq> 0 \<longrightarrow>
          xs = Fin (soft_threshold (quad_y S st) aa (total_wl1 st) (l1_median sel st)))
    \<and> (min_upp st < xs \<longrightarrow> uX = min_upp st)
    \<and> (xs < max_low st \<and> max_low st \<le> min_upp st \<longrightarrow> uX = max_low st)
    \<and> (max_low st \<le> xs \<and> xs \<le> min_upp st \<longrightarrow> uX = xs)
    \<and> (this_a st = 1 \<longrightarrow> aa = quad_aa S st)"
proof -
  have u: "uX = min (min_upp st) (max (max_low st) xs)"
    using solve_univertex_value [OF assms(1)] assms(2,3)
    by (simp add: univertex_proj_min_max univertex_low_max univertex_upp_min)
  have s: "aa \<noteq> 0 \<Longrightarrow>
      xs = Fin (soft_threshold (quad_y S st) aa (total_wl1 st) (l1_median sel st))"
    using assms(3) by (simp add: threshold_soft)
  have a: "this_a st = 1 \<Longrightarrow> aa = quad_aa S st"
    using assms(2) by (simp add: quad_aa_unit quad_aa_def split: option.split)
  show ?thesis
    using u s a by (auto simp: min_def max_def)
qed

lemma Fin_less [simp]: "(Fin x < Fin y) = (x < y)"
  by (auto simp: less_ext_def)

lemma ext_less_simps [simp]:
  "NInf < Fin x" "Fin x < PInf" "NInf < PInf" "\<not> Fin x < NInf" "\<not> PInf < Fin x" "\<not> PInf < NInf"
  "\<not> x' < NInf" "\<not> PInf < x'"
  by (cases x'; simp add: less_ext_def)+

lemma upt_0_2: "[0 ..< 2] = [0, 1]"
  by (simp add: upt_rec)

lemma lessThan_2: "{..< (2::nat)} = {0, 1}"
  by auto

lemma solve_cp_box: "solve_univertex_problem S0 sel0 cp_box = Inr (Fin 2, Some cp_box)"
  by (simp add: solve_univertex_problem_def univertex_y_aa_def univertex_l1_def
      univertex_proj_def univertex_low_def univertex_upp_def univertex_threshold_def
      cp_box_def cp0_def Cp_d1_ql1b_def base0_def S0_def IS_ATA_def acc_loop_def Let_def upt_0_2)

lemma cp_inf_fields:
  "this_N cp_inf = 2" "this_V cp_inf = 2" "this_A cp_inf = Some (\<lambda>i. 1)"
  "this_Y cp_inf = Some (\<lambda>n. 1)" "this_R cp_inf = Some \<lparr>blk = 0, len = 2, cont = (\<lambda>n. 0)\<rparr>"
  "l1_weights cp_inf = None" "homo_l1_weight cp_inf = 0" "Yl1 cp_inf = None"
  "low_bnd cp_inf = None" "upp_bnd cp_inf = None" "homo_low_bnd cp_inf = PInf"
  "homo_upp_bnd cp_inf = PInf" "this_a cp_inf = 1"
  by (simp_all add: cp_inf_def cp_two_def cp0_def Cp_d1_ql1b_def base0_def)

lemma S0_entries_16: "entries S0 (sizeof_real_t S0 * 2) = 2"
  by (simp add: entries_def sizeof_real_t_def S0_def)

lemma solve_cp_inf: "solve_univertex_problem S0 sel0 cp_inf = Inr (PInf, None)"
proof -
  have n: "\<not> IS_ATA S0 (this_N cp_inf)"
    by (simp add: cp_inf_fields IS_ATA_def S0_def)
  have u: "unat (this_N cp_inf) = 2"
    by (simp add: cp_inf_fields)
  have e: "entries S0 (sizeof_real_t S0 * this_N cp_inf) = 2"
    by (simp add: cp_inf_fields S0_entries_16)
  have rA: "univertex_rA cp_inf (\<lambda>i. 1) n = 2" for n
    by (simp add: univertex_rA_def cp_inf_fields(2) acc_loop_def upt_0_2)
  have ya: "univertex_y_aa S0 cp_inf = Inr (4, 8)"
    using n
    by (simp add: univertex_y_aa_def u e rA Y_at_def cp_inf_fields(2-4) acc_loop_def upt_0_2)
  have l1: "univertex_l1 sel0 cp_inf = (0, 0, cp_inf)"
    by (simp add: univertex_l1_def cp_inf_fields)
  have p: "univertex_proj cp_inf (univertex_threshold 4 8 0 0) = PInf"
    by (simp add: univertex_proj_def univertex_low_def univertex_upp_def univertex_threshold_def
        cp_inf_fields)
  have r: "univertex_residual cp_inf (\<lambda>i. 1) PInf = Inr None"
    by (simp add: univertex_residual_def cp_inf_fields)
  show ?thesis
    using n by (simp add: solve_univertex_problem_def ya l1 p r cp_inf_fields)
qed

theorem solve_univertex_closed_form_witness:
  "solve_univertex_problem S0 sel0 cp_box = Inr (Fin 2, Some cp_box)
   \<and> quad_aa S0 (unit_coefficient cp_box) = 2
   \<and> univertex_threshold (quad_y S0 cp_box) 2 (total_wl1 cp_box) (l1_median sel0 cp_box) = Fin 1
   \<and> max_low cp_box = Fin 2 \<and> min_upp cp_box = Fin 3
   \<and> solve_univertex_problem S0 sel0 cp_inf = Inr (PInf, None)
   \<and> min (min_upp cp_inf) (max (max_low cp_inf) (Fin (1 / 2))) = PInf"
proof -
  have q: "quad_y S0 cp_box = 2 \<and> quad_aa S0 (unit_coefficient cp_box) = 2
      \<and> total_wl1 cp_box = 0 \<and> l1_median sel0 cp_box = 0"
    by (simp add: quad_y_def quad_aa_unit total_wl1_def l1_median_def
        cp_box_def cp0_def Cp_d1_ql1b_def base0_def S0_def IS_ATA_def)
  have t: "univertex_threshold (quad_y S0 cp_box) 2 (total_wl1 cp_box)
        (l1_median sel0 cp_box) = Fin 1"
    by (simp add: q univertex_threshold_def)
  have b: "max_low cp_box = Fin 2 \<and> min_upp cp_box = Fin 3"
    by (simp add: max_low_def min_upp_def cp_box_def cp0_def Cp_d1_ql1b_def)
  have n: "\<not> IS_ATA S0 (this_N cp_inf)"
    by (simp add: cp_inf_fields IS_ATA_def S0_def)
  have qi: "quad_y S0 cp_inf = 4 \<and> quad_aa S0 (unit_coefficient cp_inf) = 8
      \<and> total_wl1 cp_inf = 0 \<and> l1_median sel0 cp_inf = 0"
    using n
    by (simp add: quad_y_def quad_aa_unit total_wl1_def l1_median_def Y_at_def cp_inf_fields
        lessThan_2)
  have ti: "univertex_threshold (quad_y S0 cp_inf) 8 (total_wl1 cp_inf)
        (l1_median sel0 cp_inf) = Fin (1 / 2)"
    by (simp add: qi univertex_threshold_def)
  have qb: "quad_aa S0 (unit_coefficient cp_box) = 2"
    using q by simp
  have qc: "quad_aa S0 (unit_coefficient cp_inf) = 8"
    using qi by simp
  show ?thesis
    using solve_univertex_closed_form [OF solve_cp_box qb [symmetric] t [symmetric]]
      solve_univertex_closed_form [OF solve_cp_inf qc [symmetric] ti [symmetric]]
      solve_cp_box solve_cp_inf q t b
    by simp
qed

text \<open>
  Claim C1 as stated fails in two places. Where the members' boxes do not meet: with
  the boxes \<open>[5, 10]\<close> and \<open>[0, 3]\<close> the threshold is \<open>1\<close>, below the lower bound \<open>5\<close> and
  not above the upper bound \<open>3\<close>; the value returned is \<open>3\<close>, which is not the violated
  bound and is under the maximum of the lower bounds. And in the scaled-identity
  shape: with \<^verbatim>\<open>a = 2\<close>, two vertices and observations \<open>1, 1\<close> the aggregates are \<open>y = 2\<close>
  and \<open>aa = 4\<close> and the closed form is \<open>1/2\<close>, within the bounds; the value returned is
  \<open>1\<close>, that of the identity.
\<close>

theorem solve_univertex_bounds_counterexample:
  "solve_univertex_problem S0 sel0 cp_boxes = Inr (Fin 3, Some cp_boxes)
   \<and> univertex_threshold (quad_y S0 cp_boxes) (quad_aa S0 cp_boxes) (total_wl1 cp_boxes)
        (l1_median sel0 cp_boxes) = Fin 1
   \<and> max_low cp_boxes = Fin 5 \<and> min_upp cp_boxes = Fin 3
   \<and> \<not> (max_low cp_boxes \<le> Fin 3)
   \<and> solve_univertex_problem S0 sel0 cp_scaled = Inr (Fin 1, Some cp_scaled)
   \<and> univertex_threshold (quad_y S0 cp_scaled) (quad_aa S0 cp_scaled) (total_wl1 cp_scaled)
        (l1_median sel0 cp_scaled) = Fin (1 / 2)
   \<and> max_low cp_scaled = NInf \<and> min_upp cp_scaled = PInf"
proof -
  have q: "quad_y S0 cp_boxes = 2 \<and> quad_aa S0 cp_boxes = 2 \<and> total_wl1 cp_boxes = 0
      \<and> l1_median sel0 cp_boxes = 0"
    by (simp add: quad_y_def quad_aa_def total_wl1_def l1_median_def
        cp_boxes_def cp0_def Cp_d1_ql1b_def base0_def S0_def IS_ATA_def)
  have t: "univertex_threshold (quad_y S0 cp_boxes) (quad_aa S0 cp_boxes) (total_wl1 cp_boxes)
        (l1_median sel0 cp_boxes) = Fin 1"
    by (simp add: q univertex_threshold_def)
  have l: "univertex_low cp_boxes = Fin 5"
    by (simp add: univertex_low_def cp_boxes_def cp0_def Cp_d1_ql1b_def base0_def upt_0_2)
  have u: "univertex_upp cp_boxes = Fin 3"
    by (simp add: univertex_upp_def cp_boxes_def cp0_def Cp_d1_ql1b_def base0_def upt_0_2)
  have ya: "univertex_y_aa S0 cp_boxes = Inr (2, 2)"
    by (simp add: univertex_y_aa_def cp_boxes_def cp0_def Cp_d1_ql1b_def base0_def S0_def
        IS_ATA_def acc_loop_def upt_0_2)
  have l1: "univertex_l1 sel0 cp_boxes = (0, 0, cp_boxes)"
    by (simp add: univertex_l1_def cp_boxes_def cp0_def Cp_d1_ql1b_def)
  have n: "IS_ATA S0 (this_N cp_boxes)"
    by (simp add: cp_boxes_def cp0_def Cp_d1_ql1b_def IS_ATA_def)
  have p: "univertex_proj cp_boxes (Fin 1) = Fin 3"
    by (simp add: univertex_proj_def l u)
  have s: "solve_univertex_problem S0 sel0 cp_boxes = Inr (Fin 3, Some cp_boxes)"
    by (simp add: solve_univertex_problem_def ya l1 n univertex_threshold_def p)
  have q2: "quad_y S0 cp_scaled = 2 \<and> quad_aa S0 cp_scaled = 4 \<and> total_wl1 cp_scaled = 0
      \<and> l1_median sel0 cp_scaled = 0"
    by (simp add: quad_y_def quad_aa_def total_wl1_def l1_median_def
        cp_scaled_def cp0_def Cp_d1_ql1b_def base0_def S0_def IS_ATA_def)
  have t2: "univertex_threshold (quad_y S0 cp_scaled) (quad_aa S0 cp_scaled) (total_wl1 cp_scaled)
        (l1_median sel0 cp_scaled) = Fin (1 / 2)"
    by (simp add: q2 univertex_threshold_def)
  have b2: "univertex_low cp_scaled = NInf \<and> univertex_upp cp_scaled = PInf"
    by (simp add: univertex_low_def univertex_upp_def cp_scaled_def cp0_def Cp_d1_ql1b_def)
  have ya2: "univertex_y_aa S0 cp_scaled = Inr (2, 2)"
    by (simp add: univertex_y_aa_def cp_scaled_def cp0_def Cp_d1_ql1b_def base0_def S0_def
        IS_ATA_def acc_loop_def upt_0_2)
  have l12: "univertex_l1 sel0 cp_scaled = (0, 0, cp_scaled)"
    by (simp add: univertex_l1_def cp_scaled_def cp0_def Cp_d1_ql1b_def)
  have n2: "IS_ATA S0 (this_N cp_scaled)"
    by (simp add: cp_scaled_def cp0_def Cp_d1_ql1b_def IS_ATA_def)
  have p2: "univertex_proj cp_scaled (Fin 1) = Fin 1"
    by (simp add: univertex_proj_def b2)
  have s2: "solve_univertex_problem S0 sel0 cp_scaled = Inr (Fin 1, Some cp_scaled)"
    by (simp add: solve_univertex_problem_def ya2 l12 n2 univertex_threshold_def p2)
  show ?thesis
    using s t l u s2 t2 b2
    by (simp add: univertex_low_max [symmetric] univertex_upp_min [symmetric])
qed

section \<open>The reduced problem: results\<close>

lemma reduced_quadratic_from_value:
  assumes "\<not> IS_ATA S (this_N st)" and "\<not> IS_ATA S r"
    and "this_N st + word_of_int (pfdr_it st) \<noteq> 0"
  shows "reduced_quadratic_from S (Some r) st =
     Inr (if word_of_nat (rV st)
               < (2 * this_N st * word_of_int (pfdr_it st))
                   div (this_N st + word_of_int (pfdr_it st))
          then Premultiplied_args
                 (if this_Y st \<noteq> None
                  then Some (entries S (sizeof_real_t S * word_of_nat (rV st))) else None)
                 (FULL_ATA S)
                 (if this_A st \<noteq> None \<or> this_a st \<noteq> 0
                  then Some (entries S (sizeof_real_t S * word_of_nat (rV st)
                                          * word_of_nat (rV st)))
                  else None)
                 (this_a st)
          else Direct_args (this_N st)
                 (Some (entries S (sizeof_real_t S * this_N st * word_of_nat (rV st)))))"
  using assms
  by (auto simp: reduced_quadratic_from_def reduced_rN_from_def reduced_alloc_def
      reduced_quadratic_args_def IS_ATA_def)

lemma reduced_quadratic_from_sentinel:
  assumes "\<not> IS_ATA S (this_N st)" and "IS_ATA S r"
  shows "reduced_quadratic_from S (Some r) st =
     Inr (Direct_args (this_N st)
            (Some (entries S (sizeof_real_t S * this_N st * word_of_nat (rV st)))))"
  using assms
  by (simp add: reduced_quadratic_from_def reduced_rN_from_def reduced_alloc_def
      reduced_quadratic_args_def)

lemma size_t_heuristic_nat:
  fixes n :: size_t
  assumes "0 \<le> it" and "2 * unat n * nat it < 2 ^ 64" and "unat n + nat it < 2 ^ 64"
    and "k < 2 ^ 64"
  shows "(word_of_nat k < (2 * n * word_of_int it) div (n + word_of_int it))
     \<longleftrightarrow> k < (2 * unat n * nat it) div (unat n + nat it)"
proof -
  have "nat it < 2 ^ LENGTH(64)"
    using assms(3) by simp
  then have "unat (word_of_nat (nat it) :: size_t) = nat it"
    by (rule of_nat_inverse [OF refl])
  then have i: "unat (word_of_int it :: size_t) = nat it"
    by (simp only: word_of_int_nat [OF assms(1)])
  have s: "unat (n + word_of_int it) = unat n + nat it"
    using assms(3) i by (simp add: unat_add_lem [THEN iffD1])
  have m2: "2 * (unat n * nat it) < (2 :: nat) ^ 64"
    using assms(2) by (simp only: mult.assoc)
  then have m1: "unat n * nat it < (2 :: nat) ^ 64"
    by linarith
  have "unat n * unat (word_of_int it :: size_t) < 2 ^ LENGTH(64)"
    using m1 by (simp only: i len_bit0 len_num1) simp
  then have q: "unat (n * word_of_int it) = unat n * nat it"
    by (simp only: unat_mult_lem [THEN iffD1] i)
  have "unat (2 :: size_t) * unat (n * word_of_int it) < 2 ^ LENGTH(64)"
    using m2 by (simp only: q) simp
  then have "unat (2 * (n * word_of_int it)) = unat (2 :: size_t) * unat (n * word_of_int it)"
    by (rule unat_mult_lem [THEN iffD1])
  then have "unat (2 * (n * word_of_int it)) = 2 * (unat n * nat it)"
    by (simp add: q)
  then have p: "unat (2 * n * word_of_int it) = 2 * unat n * nat it"
    by (simp add: mult.assoc)
  have "k < 2 ^ LENGTH(64)"
    using assms(4) by simp
  then have k: "unat (word_of_nat k :: size_t) = k"
    by (rule of_nat_inverse [OF refl])
  show ?thesis
    by (simp add: word_less_nat_alt unat_div s p k)
qed


text \<open>
  Claim C3 on the code. The initialiser of \<^verbatim>\<open>rN\<close> on line 224 reads \<^verbatim>\<open>rN\<close> before it
  holds a value, whatever the object: the choice of the reduced shape is undefined
  behaviour, and no form is handed to the reduced solver by a defined run. A build in
  which the read yields a sentinel keeps the direct form of a direct main problem
  whatever \<open>rV\<close>, \<^verbatim>\<open>N\<close> and the iteration counts are.
\<close>

theorem reduced_shape_undefined:
  "reduced_quadratic S st = Inl Uninit_read
   \<and> (\<forall>r. IS_ATA S r \<and> \<not> IS_ATA S (this_N st) \<longrightarrow>
          reduced_quadratic_from S (Some r) st =
            Inr (Direct_args (this_N st)
                   (Some (entries S (sizeof_real_t S * this_N st * word_of_nat (rV st))))))"
proof -
  have "reduced_quadratic S st = Inl Uninit_read"
    by (simp add: reduced_quadratic_def reduced_rN_def reduced_rN_from_def)
  then show ?thesis
    using reduced_quadratic_from_sentinel [of S st] by blast
qed

lemma cp_two_fields:
  "this_N cp_two = 2" "rV cp_two = 2" "pfdr_it cp_two = 10000" "pfdr_it_max cp_two = 10000"
  "this_a cp_two = 1" "this_Y cp_two \<noteq> None" "this_A cp_two \<noteq> None" "this_V cp_two = 2"
  by (simp_all add: cp_two_def cp0_def Cp_d1_ql1b_def base0_def)

lemma S0_sentinels: "IS_ATA S0 n \<longleftrightarrow> n = 0 \<or> n = - 1"
  by (simp add: IS_ATA_def S0_def)

text \<open>
  On \<open>cp_two\<close>, with two observations, two components and a cap of \<open>10000\<close> iterations,
  the heuristic of the specification asks for the premultiplied form.
\<close>

theorem reduced_shape_undefined_witness:
  "reduced_quadratic S0 cp_two = Inl Uninit_read
   \<and> reduced_quadratic_from S0 (Some 0) cp_two = Inr (Direct_args 2 (Some 4))
   \<and> spec_premultiply 2 (pfdr_it_max cp_two) (rV cp_two)"
proof -
  have a: "IS_ATA S0 0 \<and> \<not> IS_ATA S0 (this_N cp_two)"
    by (simp add: cp_two_fields S0_sentinels)
  have e: "entries S0 (sizeof_real_t S0 * this_N cp_two * word_of_nat (rV cp_two)) = 4"
    by (simp add: entries_def sizeof_S0 cp_two_fields)
  have p: "spec_premultiply 2 (pfdr_it_max cp_two) (rV cp_two)"
    by (simp add: spec_premultiply_def cp_two_fields)
  show ?thesis
    using reduced_shape_undefined [of S0 cp_two] a e p
    by (simp add: cp_two_fields)
qed

text \<open>
  When the value read is not a sentinel the test compares \<open>rV\<close> with the \<^verbatim>\<open>size_t\<close>
  quotient of \<open>2 * N * pfdr_it\<close> by \<open>N + pfdr_it\<close>, where \<^verbatim>\<open>pfdr_it\<close> is the number of
  iterations of the last inner solve. In \<open>cp_it1\<close> the cap is \<open>10000\<close> and
  \<open>2 < 2 * 10 * 10000 / 10010\<close>, yet the direct form is kept, because the last solve
  took one iteration and \<open>2 * 10 * 1 / 11\<close> is \<open>1\<close>. In \<open>cp_it3\<close> the cap and the last
  count are both \<open>3\<close> and \<open>2 < 2 * 2 * 3 / 5\<close> over the reals, yet the direct form is
  kept, because the \<^verbatim>\<open>size_t\<close> quotient is \<open>2\<close>.
\<close>

lemma reduced_shape_last_count:
  "reduced_quadratic_from S0 (Some 7) cp_it1 = Inr (Direct_args 10 (Some 20))
   \<and> spec_premultiply 10 (pfdr_it_max cp_it1) (rV cp_it1)
   \<and> reduced_quadratic_from S0 (Some 7) cp_it3 = Inr (Direct_args 2 (Some 4))
   \<and> pfdr_it cp_it3 = 3 \<and> pfdr_it_max cp_it3 = 3
   \<and> spec_premultiply 2 3 (rV cp_it3)"
proof -
  have f1: "this_N cp_it1 = 10" "rV cp_it1 = 2" "pfdr_it cp_it1 = 1" "pfdr_it_max cp_it1 = 10000"
    by (simp_all add: cp_it1_def cp_two_fields)
  have f3: "this_N cp_it3 = 2" "rV cp_it3 = 2" "pfdr_it cp_it3 = 3" "pfdr_it_max cp_it3 = 3"
    by (simp_all add: cp_it3_def cp_two_fields)
  have a: "reduced_quadratic_from S0 (Some 7) cp_it1 = Inr (Direct_args 10 (Some 20))"
    by (simp add: reduced_quadratic_from_def reduced_rN_from_def reduced_alloc_def
        reduced_quadratic_args_def S0_sentinels f1 entries_def sizeof_S0)
  have c: "reduced_quadratic_from S0 (Some 7) cp_it3 = Inr (Direct_args 2 (Some 4))"
    by (simp add: reduced_quadratic_from_def reduced_rN_from_def reduced_alloc_def
        reduced_quadratic_args_def S0_sentinels f3 entries_def sizeof_S0)
  show ?thesis
    using a c by (simp add: f1 f3 spec_premultiply_def)
qed

lemma set_saturation_fields [simp]:
  "upp_bnd (set_saturation st rv b) = upp_bnd st"
  "low_bnd (set_saturation st rv b) = low_bnd st"
  by (simp_all add: set_saturation_def)

lemma reduced_l1_frame:
  assumes "reduced_l1 sel rv (st, r) = Inr (st1, r1)"
  shows "upp_bnd st1 = upp_bnd st \<and> low_bnd st1 = low_bnd st \<and> rlow_bnd r1 = rlow_bnd r
    \<and> rupp_bnd r1 = rupp_bnd r"
proof (cases "l1_weights st")
  case None
  show ?thesis
  proof (cases "homo_l1_weight st = 0")
    case True
    then show ?thesis using assms None by (simp add: reduced_l1_def)
  next
    case False
    show ?thesis
    proof (cases "Yl1 st")
      case N: None
      then show ?thesis using assms None False by (auto simp: reduced_l1_def Let_def)
    next
      case (Some t)
      then show ?thesis using assms None False
        by (cases "is_saturated st rv") (auto simp: reduced_l1_def Let_def split: prod.splits)
    qed
  qed
next
  case (Some w)
  show ?thesis
  proof (cases "Yl1 st")
    case None
    then show ?thesis using assms Some by (auto simp: reduced_l1_def Let_def)
  next
    case T: (Some t)
    then show ?thesis using assms Some
      by (cases "is_saturated st rv")
        (auto simp: reduced_l1_def Let_def split: prod.splits sum.splits)
  qed
qed

lemma reduced_step_upp:
  assumes "upp_bnd st \<noteq> None"
  shows "isl (reduced_step sel rv (st, r))"
proof (cases "reduced_l1 sel rv (st, r)")
  case (Inl e)
  then show ?thesis by (simp add: reduced_step_def)
next
  case (Inr p)
  obtain st1 r1 where p: "p = (st1, r1)" by (cases p)
  have "upp_bnd st1 \<noteq> None"
    using reduced_l1_frame [of sel rv st r st1 r1] Inr p assms by simp
  then show ?thesis
    using Inr p by (simp add: reduced_step_def Let_def)
qed

lemma reduced_num_ops_upp: "upp_bnd st \<noteq> None \<Longrightarrow> 0 < this_V st \<Longrightarrow> reduced_num_ops st \<noteq> 0"
  by (simp add: reduced_num_ops_def)

text \<open>
  Claim C2 on the code. With an upper-bound array configured, at least one vertex and
  at least one component, \<^verbatim>\<open>solve_reduced_problem\<close> does not reach the call of
  \<^verbatim>\<open>set_bounds\<close>: the first turn of the loop ends in undefined behaviour, at the latest
  at the write through the null local \<^verbatim>\<open>rupp_bnd\<close>.
\<close>

theorem reduced_upper_bounds_unreached:
  assumes "upp_bnd st \<noteq> None" and "0 < this_V st" and "0 < rV st"
  shows "isl (reduced_bounds_args sel jr je st)"
proof -
  have u: "[0 ..< rV st] = 0 # [1 ..< rV st]"
    using assms(3) by (simp add: upt_conv_Cons)
  obtain e where "reduced_step sel 0 (st, reduced_buffers jr je st) = Inl e"
    using reduced_step_upp [OF assms(1), of sel 0 "reduced_buffers jr je st"]
    by (cases "reduced_step sel 0 (st, reduced_buffers jr je st)") auto
  then have "reduced_l1_bounds sel jr je st = Inl e"
    using reduced_num_ops_upp [OF assms(1,2)] u by (simp add: reduced_l1_bounds_def)
  then show ?thesis
    by (simp add: reduced_bounds_args_def)
qed

lemma cp_upp_fields:
  "upp_bnd cp_upp \<noteq> None" "this_V cp_upp = 2" "rV cp_upp = 2" "l1_weights cp_upp = None"
  "homo_l1_weight cp_upp = 0" "low_bnd cp_upp = None"
  by (simp_all add: cp_upp_def cp_two_def cp0_def Cp_d1_ql1b_def base0_def)

theorem reduced_upper_bounds_unreached_witness:
  "reduced_bounds_args sel0 (\<lambda>i. 0) (\<lambda>i. Fin 0) cp_upp = Inl Null_write"
proof -
  have s: "reduced_step sel0 0 (cp_upp, reduced_buffers (\<lambda>i. 0) (\<lambda>i. Fin 0) cp_upp) = Inl Null_write"
    by (simp add: reduced_step_def reduced_l1_def cp_upp_fields)
  have "reduced_l1_bounds sel0 (\<lambda>i. 0) (\<lambda>i. Fin 0) cp_upp = Inl Null_write"
    using reduced_num_ops_upp [of cp_upp] s
    by (simp add: reduced_l1_bounds_def cp_upp_fields upt_0_2)
  then have "reduced_bounds_args sel0 (\<lambda>i. 0) (\<lambda>i. Fin 0) cp_upp = Inl Null_write"
    by (simp add: reduced_bounds_args_def)
  then show ?thesis
    using reduced_upper_bounds_unreached [of cp_upp sel0 "\<lambda>i. 0" "\<lambda>i. Fin 0"]
    by (simp add: cp_upp_fields)
qed

section \<open>The evolution monitor: results\<close>

lemma acc_loop_zero:
  assumes "\<forall>i \<in> set xs. g i = 0"
  shows "acc_loop g xs s = s"
  using assms by (induction xs arbitrary: s) (simp_all add: acc_loop_def)

lemma evolution_step_unchanged:
  assumes "\<forall>i \<in> set (unat (first_vertex st rv) # seg st rv).
      last_rX st (tmp_comp_assign st (comp_list st i)) = rX st rv"
    and "0 \<le> dif_tol st"
  shows "\<exists>amp'. evolution_step cd rv (0, amp, k, st)
     = (0, amp', (if is_saturated st rv then Suc k else k), st)"
proof (cases "is_saturated st rv")
  case True
  have l: "last_rX st (tmp_comp_assign st (comp_list st (unat (first_vertex st rv)))) = rX st rv"
    using assms(1) by simp
  have n: "\<not> 0 > \<bar>rX st rv\<bar> * dif_tol st"
    using assms(2) by (simp add: not_less)
  show ?thesis
    using True l n by (simp add: evolution_step_def Let_def)
next
  case False
  have "acc_loop (\<lambda>v. (rX st rv - last_rX st (tmp_comp_assign st (comp_list st v)))
                      * (rX st rv - last_rX st (tmp_comp_assign st (comp_list st v))))
          (seg st rv) 0 = 0"
    using assms(1) by (intro acc_loop_zero) simp
  then show ?thesis
    using False by (simp add: evolution_step_def Let_def)
qed

lemma evolution_fold_unchanged:
  assumes "\<forall>rv \<in> set xs. \<forall>i \<in> set (unat (first_vertex st rv) # seg st rv).
      last_rX st (tmp_comp_assign st (comp_list st i)) = rX st rv"
    and "0 \<le> dif_tol st"
  shows "\<exists>amp'. fold (evolution_step cd) xs (0, amp, k, st)
     = (0, amp', k + length (filter (is_saturated st) xs), st)"
  using assms(1)
proof (induction xs arbitrary: amp k)
  case Nil
  then show ?case by simp
next
  case (Cons x xs)
  have h: "\<forall>i \<in> set (unat (first_vertex st x) # seg st x).
      last_rX st (tmp_comp_assign st (comp_list st i)) = rX st x"
    using Cons.prems by simp
  have t: "\<forall>rv \<in> set xs. \<forall>i \<in> set (unat (first_vertex st rv) # seg st rv).
      last_rX st (tmp_comp_assign st (comp_list st i)) = rX st rv"
    using Cons.prems by simp
  obtain amp1 where s: "evolution_step cd x (0, amp, k, st)
      = (0, amp1, (if is_saturated st x then Suc k else k), st)"
    using evolution_step_unchanged [OF h assms(2), of cd amp k] by blast
  obtain amp2 where "fold (evolution_step cd) xs (0, amp1, (if is_saturated st x then Suc k else k), st)
      = (0, amp2, (if is_saturated st x then Suc k else k) + length (filter (is_saturated st) xs), st)"
    using Cons.IH [OF t, of amp1 "if is_saturated st x then Suc k else k"] by blast
  then show ?case
    using s by auto
qed

lemma compute_evolution_unchanged:
  assumes "unchanged st" and "0 \<le> dif_tol st"
  shows "compute_evolution st cd = (0, length (filter (is_saturated st) [0 ..< rV st]), st)"
proof -
  obtain amp' where "fold (evolution_step cd) [0 ..< rV st] (0, 0, 0, st)
      = (0, amp', 0 + length (filter (is_saturated st) [0 ..< rV st]), st)"
    using evolution_fold_unchanged [of "[0 ..< rV st]" st, OF _ assms(2)] assms(1)
    unfolding unchanged_def by blast
  then show ?thesis
    by (simp add: compute_evolution_def)
qed

lemma evolution_flags_only_cleared:
  "saturated (snd (snd (snd (fold (evolution_step cd) xs (dif, amp, k, st))))) rv
     \<Longrightarrow> saturated st rv"
proof (induction xs arbitrary: dif amp k st)
  case Nil
  then show ?case by simp
next
  case (Cons x xs)
  obtain d a j st1 where s: "evolution_step cd x (dif, amp, k, st) = (d, a, j, st1)"
    by (cases "evolution_step cd x (dif, amp, k, st)") auto
  have "saturated st1 rv \<Longrightarrow> saturated st rv"
    using s by (auto simp: evolution_step_def Let_def set_saturation_def split: if_splits)
  then show ?case
    using Cons.IH [of d a j st1] Cons.prems s by simp
qed

text \<open>
  Claim C6, as the code has it. When the new values equal the previous ones (and the
  tolerance is not negative and the floor \<open>eps\<close> is positive, so that no quotient has
  a zero divisor), \<^verbatim>\<open>compute_evolution\<close> returns \<open>0\<close>, leaves every saturation flag as
  it was, and reports the number of components that were saturated on entry. In no
  case does it set a flag: a component saturated on return was saturated on entry.
\<close>

theorem compute_evolution_identical:
  assumes "unchanged st" and "0 \<le> dif_tol st" and "0 < eps st"
  shows "compute_evolution st compute_dif
      = (0, length (filter (is_saturated st) [0 ..< rV st]), st)
    \<and> (\<forall>st' rv. saturated (snd (snd (compute_evolution st' compute_dif))) rv \<longrightarrow> saturated st' rv)"
proof -
  have "saturated (snd (snd (compute_evolution st' compute_dif))) rv \<Longrightarrow> saturated st' rv"
    for st' rv
    using evolution_flags_only_cleared [of compute_dif "[0 ..< rV st']" 0 0 0 st' rv]
    by (simp add: compute_evolution_def split: prod.splits)
  then show ?thesis
    using compute_evolution_unchanged [OF assms(1,2)] by blast
qed

lemma cp_same_unchanged: "unchanged cp_same \<and> unchanged cp_sat"
  by (simp add: unchanged_def cp_sat_def cp_same_def cp0_def Cp_d1_ql1b_def base0_def)

lemma cp_same_fields:
  "rV cp_same = 1" "dif_tol cp_same = 1 / 1000" "eps cp_same = 1 / 1000000"
  "rV cp_sat = 1" "dif_tol cp_sat = 1 / 1000" "eps cp_sat = 1 / 1000000"
  "is_saturated cp_sat 0" "\<not> is_saturated cp_same 0"
  by (simp_all add: cp_sat_def cp_same_def cp0_def Cp_d1_ql1b_def base0_def is_saturated_def)

theorem compute_evolution_identical_witness:
  "compute_evolution cp_sat True = (0, 1, cp_sat)"
  using compute_evolution_identical [of cp_sat True] cp_same_unchanged
  by (simp add: cp_same_fields)

text \<open>
  Claim C6 as stated fails: with values identical to the previous round and the one
  component not saturated on entry, the difference returned is \<open>0\<close> but the number of
  saturated components reported is \<open>0\<close>, not \<open>1\<close>, and the flag is still clear.
\<close>

theorem compute_evolution_counterexample:
  "unchanged cp_same \<and> rV cp_same = 1
   \<and> compute_evolution cp_same True = (0, 0, cp_same)
   \<and> \<not> is_saturated (snd (snd (compute_evolution cp_same True))) 0"
  using compute_evolution_unchanged [of cp_same True] cp_same_unchanged
  by (simp add: cp_same_fields)

section \<open>The split step: results\<close>

lemma fold_frame:
  assumes "\<And>x s. h (f x s) = h s"
  shows "h (fold f xs s) = h s"
  using assms by (induction xs arbitrary: s) simp_all

lemma fold_grows:
  fixes h :: "'s \<Rightarrow> 'e set"
  assumes "\<And>x s. h s \<subseteq> h (f x s)"
  shows "h s \<subseteq> h (fold f xs s)"
proof (induction xs arbitrary: s)
  case Nil
  then show ?case by simp
next
  case (Cons x xs)
  have "h s \<subseteq> h (f x s)" by (rule assms)
  also have "\<dots> \<subseteq> h (fold f xs (f x s))" by (rule Cons.IH)
  finally show ?case by simp
qed

lemma static_ops [simp]:
  "static (set_term_capacities st v c) = static st"
  "static (add_term_capacities st v x) = static st"
  "static (set_edge_capacities st e a b) = static st"
  "static (maxflow eng st vs) = static st"
  "static (set_active st e) = static st"
  "static (set_saturation st rv t) = static st"
  by (simp_all add: static_def set_term_capacities_def add_term_capacities_def
      set_edge_capacities_def maxflow_def set_active_def set_saturation_def)

lemma static_fields:
  assumes "static st' = static st"
  shows "comp_list st' = comp_list st" "first_vertex st' = first_vertex st"
    "first_edge st' = first_edge st" "adj_vertices st' = adj_vertices st" "rV st' = rV st"
    "rX st' = rX st" "l1_weights st' = l1_weights st" "homo_l1_weight st' = homo_l1_weight st"
    "low_bnd st' = low_bnd st" "upp_bnd st' = upp_bnd st" "homo_low_bnd st' = homo_low_bnd st"
    "homo_upp_bnd st' = homo_upp_bnd st" "edge_weights st' = edge_weights st"
    "homo_edge_weight st' = homo_edge_weight st" "Yl1 st' = Yl1 st" "this_V st' = this_V st"
proof -
  have "f (static st') = f (static st)" for f :: "cp \<Rightarrow> 'x"
    using assms by simp
  note e = this
  show "comp_list st' = comp_list st" using e [of comp_list] by (simp add: static_def)
  show "first_vertex st' = first_vertex st" using e [of first_vertex] by (simp add: static_def)
  show "first_edge st' = first_edge st" using e [of first_edge] by (simp add: static_def)
  show "adj_vertices st' = adj_vertices st" using e [of adj_vertices] by (simp add: static_def)
  show "rV st' = rV st" using e [of rV] by (simp add: static_def)
  show "rX st' = rX st" using e [of rX] by (simp add: static_def)
  show "l1_weights st' = l1_weights st" using e [of l1_weights] by (simp add: static_def)
  show "homo_l1_weight st' = homo_l1_weight st" using e [of homo_l1_weight] by (simp add: static_def)
  show "low_bnd st' = low_bnd st" using e [of low_bnd] by (simp add: static_def)
  show "upp_bnd st' = upp_bnd st" using e [of upp_bnd] by (simp add: static_def)
  show "homo_low_bnd st' = homo_low_bnd st" using e [of homo_low_bnd] by (simp add: static_def)
  show "homo_upp_bnd st' = homo_upp_bnd st" using e [of homo_upp_bnd] by (simp add: static_def)
  show "edge_weights st' = edge_weights st" using e [of edge_weights] by (simp add: static_def)
  show "homo_edge_weight st' = homo_edge_weight st" using e [of homo_edge_weight] by (simp add: static_def)
  show "Yl1 st' = Yl1 st" using e [of Yl1] by (simp add: static_def)
  show "this_V st' = this_V st" using e [of this_V] by (simp add: static_def)
qed

lemma static_derived:
  assumes "static st' = static st"
  shows "comp_edges st' rv = comp_edges st rv" "comp_vertices st' rv = comp_vertices st rv"
    "only_d1 st' = only_d1 st" "seg st' rv = seg st rv"
  using static_fields [OF assms]
  by (simp_all add: comp_edges_def comp_vertices_def out_edges_def seg_def only_d1_def)

lemma activate_cut_Nil [simp]: "activate_cut [] p = p"
  by (simp add: activate_cut_def)

lemma activate_cut_Cons [simp]:
  "activate_cut ((v, e) # es) (s, n) =
     activate_cut es
       (if \<not> is_active s e \<and> is_sink s v \<noteq> is_sink s (adj_vertices s e)
        then (set_active s e, n + 1) else (s, n))"
  by (simp add: activate_cut_def)

lemma set_active_fields [simp]:
  "active (set_active s e) = insert e (active s)"
  "saturated (set_active s e) = saturated s"
  "sink (set_active s e) = sink s"
  "term_cap (set_active s e) = term_cap s"
  "edge_cap (set_active s e) = edge_cap s"
  "solves (set_active s e) = solves s"
  "adj_vertices (set_active s e) = adj_vertices s"
  by (simp_all add: set_active_def)

lemma activate_cut_frame:
  assumes "activate_cut es (s, n) = (s', n')"
  shows "static s' = static s \<and> saturated s' = saturated s \<and> sink s' = sink s
    \<and> term_cap s' = term_cap s \<and> edge_cap s' = edge_cap s \<and> solves s' = solves s"
  using assms
proof (induction es arbitrary: s n)
  case Nil
  then show ?case by simp
next
  case (Cons x es)
  obtain v e where x: "x = (v, e)" by (cases x)
  show ?case
  proof (cases "\<not> is_active s e \<and> is_sink s v \<noteq> is_sink s (adj_vertices s e)")
    case True
    then have "activate_cut es (set_active s e, n + 1) = (s', n')"
      using Cons.prems x by simp
    from Cons.IH [OF this] show ?thesis by simp
  next
    case False
    then have "activate_cut es (s, n) = (s', n')"
      using Cons.prems x by (simp del: not_not split: if_splits)
    from Cons.IH [OF this] show ?thesis .
  qed
qed

lemma activate_cut_count:
  assumes "activate_cut es (s, n) = (s', n')"
  shows "active s \<subseteq> active s' \<and> active s' \<subseteq> active s \<union> snd ` set es
    \<and> n' = n + of_nat (card (active s' - active s))"
  using assms
proof (induction es arbitrary: s n)
  case Nil
  then show ?case by simp
next
  case (Cons x es)
  obtain v e where x: "x = (v, e)" by (cases x)
  show ?case
  proof (cases "\<not> is_active s e \<and> is_sink s v \<noteq> is_sink s (adj_vertices s e)")
    case True
    then have r: "activate_cut es (set_active s e, n + 1) = (s', n')"
      using Cons.prems x by simp
    have ih: "insert e (active s) \<subseteq> active s'"
      "active s' \<subseteq> insert e (active s) \<union> snd ` set es"
      "n' = n + 1 + of_nat (card (active s' - insert e (active s)))"
      using Cons.IH [OF r] by simp_all
    have e: "e \<notin> active s"
      using True by (simp add: is_active_def)
    have "active s' - insert e (active s) \<subseteq> snd ` set es"
      using ih(2) by auto
    then have fin: "finite (active s' - insert e (active s))"
      by (rule finite_subset) simp
    have d: "active s' - active s = insert e (active s' - insert e (active s))"
      using ih(1) e by auto
    have "e \<notin> active s' - insert e (active s)"
      by blast
    with fin have "card (insert e (active s' - insert e (active s)))
        = Suc (card (active s' - insert e (active s)))"
      by (rule card_insert_disjoint)
    then have c: "card (active s' - active s) = Suc (card (active s' - insert e (active s)))"
      by (simp only: d [symmetric])
    have "n' = n + of_nat (card (active s' - active s))"
      unfolding c ih(3) by simp
    moreover have "active s \<subseteq> active s'"
      using ih(1) by blast
    moreover have "active s' \<subseteq> active s \<union> snd ` set (x # es)"
      using ih(2) x by auto
    ultimately show ?thesis by blast
  next
    case False
    then have "activate_cut es (s, n) = (s', n')"
      using Cons.prems x by (simp del: not_not split: if_splits)
    from Cons.IH [OF this] have "active s \<subseteq> active s'"
      "active s' \<subseteq> active s \<union> snd ` set es"
      "n' = n + of_nat (card (active s' - active s))"
      by simp_all
    moreover have "snd ` set es \<subseteq> snd ` set (x # es)"
      by auto
    ultimately show ?thesis by blast
  qed
qed

lemma activate_cut_separated:
  assumes "activate_cut es (s, n) = (s', n')"
  shows "\<forall>(v, e) \<in> set es. e \<in> active s' \<or> sink s v = sink s (adj_vertices s e)"
  using assms
proof (induction es arbitrary: s n)
  case Nil
  then show ?case by simp
next
  case (Cons x es)
  obtain v e where x: "x = (v, e)" by (cases x)
  obtain s1 n1 where s1: "(if \<not> is_active s e \<and> is_sink s v \<noteq> is_sink s (adj_vertices s e)
        then (set_active s e, n + 1) else (s, n)) = (s1, n1)"
    by (cases "\<not> is_active s e \<and> is_sink s v \<noteq> is_sink s (adj_vertices s e)") auto
  have r: "activate_cut es (s1, n1) = (s', n')"
    using Cons.prems x s1 by simp
  have same: "sink s1 = sink s" "adj_vertices s1 = adj_vertices s"
    using s1 by (auto split: if_splits)
  have rest: "\<forall>(v, e) \<in> set es. e \<in> active s' \<or> sink s v = sink s (adj_vertices s e)"
    using Cons.IH [OF r] same by simp
  have grown: "active s1 \<subseteq> active s'"
    using activate_cut_count [OF r] by simp
  have "e \<in> active s1 \<or> sink s v = sink s (adj_vertices s e)"
    using s1 by (auto simp: is_active_def is_sink_def split: if_splits)
  then have "e \<in> active s' \<or> sink s v = sink s (adj_vertices s e)"
    using grown by auto
  then show ?case
    using rest x by simp
qed

lemma activate_cut_idle:
  assumes "\<forall>(v, e) \<in> set es. e \<in> active s \<or> sink s v = sink s (adj_vertices s e)"
  shows "activate_cut es (s, n) = (s, n)"
  using assms
proof (induction es)
  case Nil
  then show ?case by simp
next
  case (Cons x es)
  obtain v e where x: "x = (v, e)" by (cases x)
  have "e \<in> active s \<or> sink s v = sink s (adj_vertices s e)"
    using Cons.prems x by simp
  then have "\<not> (\<not> is_active s e \<and> is_sink s v \<noteq> is_sink s (adj_vertices s e))"
    by (auto simp: is_active_def is_sink_def)
  then have "activate_cut (x # es) (s, n) = activate_cut es (s, n)"
    unfolding x activate_cut_Cons by (simp only: if_False)
  then show ?case
    using Cons.IH Cons.prems by simp
qed

lemma kept_ops [simp]:
  "kept (set_term_capacities st v c) = kept st"
  "kept (add_term_capacities st v x) = kept st"
  "kept (set_edge_capacities st e a b) = kept st"
  "kept (maxflow eng st vs) = kept st"
  by (simp_all add: kept_def)
    (simp_all add: set_term_capacities_def add_term_capacities_def
      set_edge_capacities_def maxflow_def)

text \<open>
  Each block that prepares a cut leaves the active edges, the saturation flags and
  the static fields as they are.
\<close>

lemma kept_blocks [simp]:
  "kept (source_sink_capacities g vs st) = kept st"
  "kept (l1_positive rv vs st) = kept st"
  "kept (l1_negative rv vs st) = kept st"
  "kept (upper_bound_capacities rv vs st) = kept st"
  "kept (lower_bound_capacities rv vs st) = kept st"
  "kept (set_d1_capacities es st) = kept st"
proof -
  show "kept (source_sink_capacities g vs st) = kept st"
    unfolding source_sink_capacities_def by (rule fold_frame) simp
  have a: "kept (fold (\<lambda>v s. if rX s rv = Yl1_at s v
                        then add_term_capacities s v (L1_WEIGHTS_at s v) else s) vs st) = kept st"
    by (rule fold_frame) simp
  show "kept (l1_positive rv vs st) = kept st"
    unfolding l1_positive_def using a by simp
  have b: "kept (fold (\<lambda>v s. if rX s rv = Yl1_at s v
                        then add_term_capacities s v (- L1_WEIGHTS_at s v) else s) vs st) = kept st"
    by (rule fold_frame) simp
  show "kept (l1_negative rv vs st) = kept st"
    unfolding l1_negative_def using b by simp
  have c: "kept (fold (\<lambda>v s. if Fin (rX s rv) = ub v
                                then set_term_capacities s v x else s) vs st) = kept st" for ub x
    by (rule fold_frame) simp
  have d: "kept (fold (\<lambda>v s. set_term_capacities s v x) vs st) = kept st" for x
    by (rule fold_frame) simp
  show "kept (upper_bound_capacities rv vs st) = kept st"
    unfolding upper_bound_capacities_def using c d by (simp split: option.split)
  show "kept (lower_bound_capacities rv vs st) = kept st"
    unfolding lower_bound_capacities_def using c d by (simp split: option.split)
  show "kept (set_d1_capacities es st) = kept st"
    unfolding set_d1_capacities_def by (rule fold_frame) (simp split: prod.split)
qed

lemma first_cut_prepared:
  "\<exists>s. first_cut eng g rv st = activate_cut (comp_edges st rv) (s, 0) \<and> kept s = kept st"
  unfolding first_cut_def Let_def
  by (rule exI, rule conjI, rule refl) simp

lemma second_cut_prepared:
  "\<exists>s. second_cut eng g rv st n = activate_cut (comp_edges st rv) (s, n) \<and> kept s = kept st"
  unfolding second_cut_def Let_def
  by (rule exI, rule conjI, rule refl) simp

text \<open>
  A cut: the static fields and the saturation flags are kept, the active edges grow
  by edges of the component, and the counter grows by their number.
\<close>

lemma cut_effect:
  assumes "activate_cut (comp_edges st rv) (s, n) = (s', n')" and "kept s = kept st"
  shows "static s' = static st \<and> saturated s' = saturated st
    \<and> active st \<subseteq> active s' \<and> active s' \<subseteq> active st \<union> snd ` set (comp_edges st rv)
    \<and> n' = n + of_nat (card (active s' - active st))"
  using activate_cut_frame [OF assms(1)] activate_cut_count [OF assms(1)] assms(2)
  by (simp add: kept_def)

lemma first_cut_effect:
  assumes "first_cut eng g rv st = (s', n')"
  shows "static s' = static st \<and> saturated s' = saturated st
    \<and> active st \<subseteq> active s' \<and> active s' \<subseteq> active st \<union> snd ` set (comp_edges st rv)
    \<and> n' = of_nat (card (active s' - active st))"
proof -
  obtain s where "first_cut eng g rv st = activate_cut (comp_edges st rv) (s, 0)" "kept s = kept st"
    using first_cut_prepared by blast
  then show ?thesis
    using cut_effect [of st rv s 0 s' n'] assms by simp
qed

lemma second_cut_effect:
  assumes "second_cut eng g rv st n = (s', n')"
  shows "static s' = static st \<and> saturated s' = saturated st
    \<and> active st \<subseteq> active s' \<and> active s' \<subseteq> active st \<union> snd ` set (comp_edges st rv)
    \<and> n' = n + of_nat (card (active s' - active st))"
proof -
  obtain s where "second_cut eng g rv st n = activate_cut (comp_edges st rv) (s, n)" "kept s = kept st"
    using second_cut_prepared by blast
  then show ?thesis
    using cut_effect [of st rv s n s' n'] assms by simp
qed

lemma owned_edges_bound: "owned_edges st rv \<subseteq> {..< 2 ^ 32 - 1}"
proof
  fix e
  assume "e \<in> owned_edges st rv"
  then obtain v where "e \<in> set (out_edges st v)"
    by (auto simp: owned_edges_def comp_edges_def)
  then have "e < unat (first_edge st (Suc v))"
    by (simp add: out_edges_def)
  moreover have "unat (first_edge st (Suc v)) < 2 ^ LENGTH(32)"
    by (rule unsigned_less)
  ultimately show "e \<in> {..< 2 ^ 32 - 1}"
    by simp
qed

lemma owned_edges_finite: "finite (owned_edges st rv)"
  by (simp add: owned_edges_def)

lemma counter_zero:
  assumes "D \<subseteq> owned_edges st rv"
  shows "(word_of_nat (card D) :: index_t) = 0 \<longleftrightarrow> D = {}"
proof -
  have f: "finite D"
    using assms owned_edges_finite by (rule finite_subset)
  have "D \<subseteq> {..< 2 ^ 32 - 1}"
    using assms owned_edges_bound by blast
  then have "card D \<le> card {..< (2 :: nat) ^ 32 - 1}"
    by (intro card_mono) simp_all
  then have b: "card D < 2 ^ LENGTH(32)"
    by simp
  have "(word_of_nat (card D) :: index_t) = 0 \<longleftrightarrow> card D = 0"
  proof
    assume "(word_of_nat (card D) :: index_t) = 0"
    then have "unat (0 :: index_t) = card D"
      using b by (rule of_nat_inverse)
    then show "card D = 0" by simp
  next
    assume "card D = 0"
    then show "(word_of_nat (card D) :: index_t) = 0" by simp
  qed
  then show ?thesis
    using f by simp
qed

lemma static_owned_edges:
  "static st' = static st \<Longrightarrow> owned_edges st' rv = owned_edges st rv"
  unfolding owned_edges_def by (drule static_derived(1) [of st' st rv]) simp

text \<open>
  One turn of the loop over the components.
\<close>

lemma two_counts:
  fixes A0 A1 A2 :: "nat set"
  assumes "A0 \<subseteq> A1" and "A1 \<subseteq> A2" and "finite (A2 - A0)"
  shows "card (A1 - A0) + card (A2 - A1) = card (A2 - A0)"
proof -
  have "A2 - A0 = (A1 - A0) \<union> (A2 - A1)"
    using assms(1,2) by auto
  moreover have "(A1 - A0) \<inter> (A2 - A1) = {}"
    by auto
  moreover have "finite (A1 - A0)" "finite (A2 - A1)"
    using assms by (auto intro: finite_subset [OF _ assms(3)])
  ultimately show ?thesis
    by (simp add: card_Un_disjoint)
qed

lemma split_component_effect:
  assumes "split_component eng g rv (st, a) = (st', a')"
  shows "static st' = static st"
    and "active st \<subseteq> active st'"
    and "active st' \<subseteq> active st \<union> owned_edges st rv"
    and "rv' \<noteq> rv \<Longrightarrow> saturated st' rv' = saturated st rv'"
    and "is_saturated st rv \<Longrightarrow> st' = st \<and> a' = a"
    and "\<not> is_saturated st rv \<Longrightarrow> saturated st' rv = (active st' = active st)"
proof -
  show "is_saturated st rv \<Longrightarrow> st' = st \<and> a' = a"
    using assms by (simp add: split_component_def)
  obtain s1 n1 where c1: "first_cut eng g rv st = (s1, n1)"
    by (cases "first_cut eng g rv st") auto
  note e1 = first_cut_effect [OF c1]
  obtain s2 n2 where c2: "second_cut eng g rv s1 n1 = (s2, n2)"
    by (cases "second_cut eng g rv s1 n1") auto
  note e2 = second_cut_effect [OF c2]
  have ss1: "static s1 = static st"
    using e1 by blast
  have ce: "comp_edges s1 rv = comp_edges st rv"
    using ss1 by (rule static_derived)
  define sf nf where "sf = (if only_d1 s1 then s1 else s2)" and "nf = (if only_d1 s1 then n1 else n2)"
  have res: "\<not> is_saturated st rv \<Longrightarrow> st' = set_saturation sf rv (nf = 0) \<and> a' = a + nf"
    using assms c1 c2 by (auto simp: split_component_def sf_def nf_def)
  have sfs: "static sf = static st" "saturated sf = saturated st" "active st \<subseteq> active sf"
    "active sf \<subseteq> active st \<union> owned_edges st rv"
    using e1 e2 ce by (auto simp: sf_def owned_edges_def)
  have fin: "finite (active s2 - active st)"
  proof (rule finite_subset)
    show "active s2 - active st \<subseteq> owned_edges st rv"
      using e1 e2 ce by (auto simp: owned_edges_def)
    show "finite (owned_edges st rv)" by (rule owned_edges_finite)
  qed
  have "n2 = of_nat (card (active s1 - active st)) + of_nat (card (active s2 - active s1))"
    using e1 e2 by simp
  also have "\<dots> = of_nat (card (active s1 - active st) + card (active s2 - active s1))"
    by simp
  also have "card (active s1 - active st) + card (active s2 - active s1) = card (active s2 - active st)"
    using e1 e2 fin by (intro two_counts) simp_all
  finally have n2: "n2 = of_nat (card (active s2 - active st))" .
  have nf: "nf = of_nat (card (active sf - active st))"
    using e1 n2 by (simp add: nf_def sf_def)
  have "active sf - active st \<subseteq> owned_edges st rv"
    using sfs(4) by auto
  then have z: "nf = 0 \<longleftrightarrow> active sf - active st = {}"
    unfolding nf by (rule counter_zero)
  have st'_cases: "st' = st \<or> st' = set_saturation sf rv (nf = 0)"
    using assms c1 c2 by (auto simp: split_component_def sf_def nf_def split: if_splits)
  show "static st' = static st"
    using st'_cases sfs(1) by auto
  have act: "active (set_saturation sf rv (nf = 0)) = active sf"
    by (simp add: set_saturation_def)
  show "active st \<subseteq> active st'"
    using st'_cases sfs(3) act by auto
  show "active st' \<subseteq> active st \<union> owned_edges st rv"
    using st'_cases sfs(4) act by auto
  show "rv' \<noteq> rv \<Longrightarrow> saturated st' rv' = saturated st rv'"
    using st'_cases sfs(2) by (auto simp: set_saturation_def)
  show "\<not> is_saturated st rv \<Longrightarrow> saturated st' rv = (active st' = active st)"
  proof -
    assume "\<not> is_saturated st rv"
    then have "st' = set_saturation sf rv (nf = 0)"
      using res by simp
    then have "saturated st' rv = (nf = 0)" "active st' = active sf"
      by (simp_all add: set_saturation_def)
    then show ?thesis
      using z sfs(3) by auto
  qed
qed

lemma split_fold_effect:
  assumes "fold (split_component eng g) xs (st, a) = (st', a')"
  shows "static st' = static st \<and> active st \<subseteq> active st'
    \<and> active st' \<subseteq> active st \<union> (\<Union>rv \<in> set xs. owned_edges st rv)
    \<and> (\<forall>rv. rv \<notin> set xs \<longrightarrow> saturated st' rv = saturated st rv)"
  using assms
proof (induction xs arbitrary: st a)
  case Nil
  then show ?case by simp
next
  case (Cons x xs)
  obtain s1 a1 where s: "split_component eng g x (st, a) = (s1, a1)"
    by (cases "split_component eng g x (st, a)") auto
  note e = split_component_effect [OF s]
  have r: "fold (split_component eng g) xs (s1, a1) = (st', a')"
    using Cons.prems s by simp
  note ih = Cons.IH [OF r]
  have o: "owned_edges s1 rv = owned_edges st rv" for rv
    using e(1) by (rule static_owned_edges)
  have 1: "static st' = static st"
    using ih e(1) by simp
  have 2: "active st \<subseteq> active st'"
    using ih e(2) by blast
  have 3: "active st' \<subseteq> active st \<union> (\<Union>rv \<in> set (x # xs). owned_edges st rv)"
    using ih e(3) o by auto
  have 4: "\<forall>rv. rv \<notin> set (x # xs) \<longrightarrow> saturated st' rv = saturated st rv"
    using ih e(4) by auto
  show ?case
    using 1 2 3 4 by blast
qed

lemma split_upto_Suc:
  "split_upto eng g st (Suc k) = split_component eng g k (split_upto eng g st k)"
  by (simp add: split_upto_def)

lemma split_upto_rest:
  assumes "k \<le> n"
  shows "split_upto eng g st n = fold (split_component eng g) [k ..< n] (split_upto eng g st k)"
proof -
  have "[0 ..< n] = [0 ..< k] @ [k ..< n]"
    using assms by (metis le_add_diff_inverse upt_add_eq_append zero_le)
  then show ?thesis
    by (simp add: split_upto_def)
qed

lemma split_upto_effect:
  assumes "split_upto eng g st k = (st', a')"
  shows "static st' = static st" and "active st \<subseteq> active st'"
    and "active st' \<subseteq> active st \<union> (\<Union>rv \<in> {..< k}. owned_edges st rv)"
    and "k \<le> rv \<Longrightarrow> saturated st' rv = saturated st rv"
  using split_fold_effect [of eng g "[0 ..< k]" st 0 st' a'] assms
  by (auto simp: split_upto_def)

text \<open>
  Claim C5. Every edge that is active before \<^verbatim>\<open>split\<close> is active after it, and after any
  number of successive calls.
\<close>

theorem split_activation_monotone:
  "(split S eng st = Inr (st', n) \<longrightarrow> active st \<subseteq> active st')
   \<and> (split_repeat S eng k st = Inr st'' \<longrightarrow> active st \<subseteq> active st'')"
proof -
  have one: "split S eng s = Inr (s', m) \<Longrightarrow> active s \<subseteq> active s'" for s s' m
    using split_upto_effect(2) [of eng _ s "rV s" s' m]
    by (auto simp: split_def split: sum.splits)
  have "split_repeat S eng k st = Inr st'' \<Longrightarrow> active st \<subseteq> active st''"
  proof (induction k arbitrary: st)
    case 0
    then show ?case by simp
  next
    case (Suc k)
    then obtain s1 m where s: "split S eng st = Inr (s1, m)" and r: "split_repeat S eng k s1 = Inr st''"
      by (auto split: sum.splits)
    have "active st \<subseteq> active s1" using s by (rule one)
    also have "\<dots> \<subseteq> active st''" using r by (rule Suc.IH)
    finally show ?case .
  qed
  then show ?thesis
    using one by blast
qed

text \<open>
  Claim C4. For a component that is not saturated when \<^verbatim>\<open>split\<close> is entered, the
  saturation flag after \<^verbatim>\<open>split\<close> is set exactly when the turn of the loop that
  processes the component (both cuts) activated no edge. Where no edge is owned by two
  components, this is exactly when the number of edges of the component that \<^verbatim>\<open>split\<close>
  activated is zero. (The 32-bit counter cannot wrap: a component owns fewer than
  \<open>2^32\<close> edges.)
\<close>

theorem split_saturation:
  assumes "gradient S st = Inr g" and "rv < rV st" and "\<not> is_saturated st rv"
    and "split S eng st = Inr (st', n)"
  shows "(is_saturated st' rv \<longleftrightarrow>
            active (fst (split_upto eng g st (Suc rv))) = active (fst (split_upto eng g st rv)))
    \<and> (disjoint_components st \<longrightarrow>
         (is_saturated st' rv \<longleftrightarrow> card ((active st' - active st) \<inter> owned_edges st rv) = 0))"
proof -
  obtain s0 a0 where p0: "split_upto eng g st rv = (s0, a0)"
    by (cases "split_upto eng g st rv") auto
  obtain s1 a1 where p1: "split_upto eng g st (Suc rv) = (s1, a1)"
    by (cases "split_upto eng g st (Suc rv)") auto
  have fin: "split_upto eng g st (rV st) = (st', n)"
    using assms(1,4) by (simp add: split_def)
  note e0 = split_upto_effect [OF p0]
  have step: "split_component eng g rv (s0, a0) = (s1, a1)"
    using p0 p1 by (simp add: split_upto_Suc)
  note es = split_component_effect [OF step]
  have rest: "fold (split_component eng g) [Suc rv ..< rV st] (s1, a1) = (st', n)"
    using split_upto_rest [of "Suc rv" "rV st" eng g st] assms(2) p1 fin by simp
  note er = split_fold_effect [OF rest]
  have ns: "\<not> is_saturated s0 rv"
    using e0(4) [of rv] assms(3) by (simp add: is_saturated_def)
  have flag: "saturated st' rv = (active s1 = active s0)"
    using er es(6) [OF ns] by simp
  have first: "is_saturated st' rv \<longleftrightarrow>
      active (fst (split_upto eng g st (Suc rv))) = active (fst (split_upto eng g st rv))"
    using flag p0 p1 by (simp add: is_saturated_def)
  have second: "is_saturated st' rv \<longleftrightarrow> card ((active st' - active st) \<inter> owned_edges st rv) = 0"
    if d: "disjoint_components st"
  proof -
    let ?E = "owned_edges st rv"
    have o0: "owned_edges s0 r = owned_edges st r" for r
      using e0(1) by (rule static_owned_edges)
    have ss1: "static s1 = static st"
      using es(1) e0(1) by simp
    have o1: "owned_edges s1 r = owned_edges st r" for r
      using ss1 by (rule static_owned_edges)
    have dis: "r < rV st \<Longrightarrow> r \<noteq> rv \<Longrightarrow> owned_edges st r \<inter> ?E = {}" for r
      using d assms(2) by (simp add: disjoint_components_def)
    have before: "active s0 \<inter> ?E = active st \<inter> ?E"
    proof -
      have "active s0 \<subseteq> active st \<union> (\<Union>r \<in> {..< rv}. owned_edges st r)"
        by (rule e0(3))
      moreover have "owned_edges st r \<inter> ?E = {}" if "r < rv" for r
        using dis [of r] that assms(2) by simp
      then have "(\<Union>r \<in> {..< rv}. owned_edges st r) \<inter> ?E = {}"
        by blast
      ultimately show ?thesis
        using e0(2) by blast
    qed
    have after: "active st' \<inter> ?E = active s1 \<inter> ?E"
    proof -
      have "active st' \<subseteq> active s1 \<union> (\<Union>r \<in> set [Suc rv ..< rV st]. owned_edges st r)"
        using er o1 by simp
      moreover have "owned_edges st r \<inter> ?E = {}" if "Suc rv \<le> r" "r < rV st" for r
        using dis [of r] that by simp
      then have "(\<Union>r \<in> set [Suc rv ..< rV st]. owned_edges st r) \<inter> ?E = {}"
        by fastforce
      moreover have "active s1 \<subseteq> active st'"
        using er by blast
      ultimately show ?thesis
        by blast
    qed
    have within: "active s1 \<subseteq> active s0 \<union> ?E" "active s0 \<subseteq> active s1"
      using es(2,3) o0 by auto
    have "active s1 = active s0 \<longleftrightarrow> active s1 \<inter> ?E = active s0 \<inter> ?E"
      using within by blast
    also have "\<dots> \<longleftrightarrow> active st' \<inter> ?E = active st \<inter> ?E"
      using before after by simp
    also have "\<dots> \<longleftrightarrow> (active st' - active st) \<inter> ?E = {}"
      using split_upto_effect(2) [OF fin] by blast
    also have "\<dots> \<longleftrightarrow> card ((active st' - active st) \<inter> ?E) = 0"
      using owned_edges_finite [of st rv] by simp
    finally show ?thesis
      using flag by (simp add: is_saturated_def)
  qed
  show ?thesis
    using first second by blast
qed

lemma cp0_fields:
  "this_V cp0 = 2" "rV cp0 = 1" "this_N cp0 = - 1" "this_A cp0 = None" "this_a cp0 = 1"
  "this_Y cp0 = None" "l1_weights cp0 = None" "homo_l1_weight cp0 = 0" "low_bnd cp0 = None"
  "upp_bnd cp0 = None" "homo_low_bnd cp0 = NInf" "homo_upp_bnd cp0 = PInf" "active cp0 = {}"
  "saturated cp0 = (\<lambda>rv. False)" "comp_list cp0 = (\<lambda>i. i)" "adj_vertices cp0 = (\<lambda>e. 1)"
  "first_vertex cp0 = (\<lambda>rv. if rv = 0 then 0 else 2)"
  "first_edge cp0 = (\<lambda>v. if v = 0 then 0 else 1)" "sink cp0 = (\<lambda>v. False)"
  by (simp_all add: cp0_def Cp_d1_ql1b_def base0_def S0_def)

lemma S0_values: "FULL_ATA S0 = 0" "DIAG_ATA S0 = - 1"
  by (simp_all add: S0_def)

lemma cp0_lists:
  "comp_vertices cp0 0 = [0, 1]" "comp_edges cp0 0 = [(0, 0)]"
  by (simp_all add: comp_vertices_def comp_edges_def seg_def out_edges_def cp0_fields upt_0_2)

lemma cp0_gradient: "\<exists>g. gradient S0 cp0 = Inr g"
  by (simp add: gradient_def grad_quadratic_def cp0_fields S0_sentinels S0_values)

lemma cp0_only_d1: "only_d1 cp0"
  by (simp add: only_d1_def cp0_fields)

lemma first_cut_cp0:
  "\<exists>s. first_cut eng_cut g 0 cp0 = (s, 1) \<and> active s = {0}"
proof -
  define s where "s = maxflow eng_cut
      (set_d1_capacities (comp_edges cp0 0)
        (upper_bound_capacities 0 (comp_vertices cp0 0)
          (l1_positive 0 (comp_vertices cp0 0)
            (source_sink_capacities g (comp_vertices cp0 0) cp0))))
      (comp_vertices cp0 0)"
  have s: "first_cut eng_cut g 0 cp0 = activate_cut (comp_edges cp0 0) (s, 0)"
    by (simp add: first_cut_def Let_def s_def)
  have k: "kept s = kept cp0"
    by (simp add: s_def)
  have sk: "sink s = (\<lambda>v. v = 1)"
    by (simp add: s_def maxflow_def eng_cut_def)
  have a: "active s = {}" "adj_vertices s = (\<lambda>e. 1)"
    using k static_fields(4) [of s cp0] by (simp_all add: kept_def cp0_fields)
  show ?thesis
    using s a sk by (simp add: cp0_lists is_active_def is_sink_def)
qed

text \<open>
  With no nondifferentiable part besides the total variation, a cut configures the
  terminal capacities from the gradient and the capacities of the inactive edges
  from the weights, and nothing else.
\<close>

lemma set_term_capacities_fields [simp]:
  "term_cap (set_term_capacities st v c) = (term_cap st)(v := c)"
  "(set_term_capacities st v c)\<lparr>term_cap := f\<rparr> = st\<lparr>term_cap := f\<rparr>"
  by (simp_all add: set_term_capacities_def)

lemma source_sink_capacities_eq:
  "source_sink_capacities g vs st
     = st\<lparr>term_cap := (\<lambda>u. if u \<in> set vs then Fin (g u) else term_cap st u)\<rparr>"
proof (induction vs arbitrary: st)
  case Nil
  then show ?case by (simp add: source_sink_capacities_def)
next
  case (Cons v vs)
  let ?s = "set_term_capacities st v (Fin (g v))"
  have "source_sink_capacities g (v # vs) st = source_sink_capacities g vs ?s"
    by (simp add: source_sink_capacities_def)
  also have "\<dots> = st\<lparr>term_cap := (\<lambda>u. if u \<in> set vs then Fin (g u) else term_cap ?s u)\<rparr>"
    by (simp only: Cons.IH set_term_capacities_fields(2))
  also have "(\<lambda>u. if u \<in> set vs then Fin (g u) else term_cap ?s u)
      = (\<lambda>u. if u \<in> set (v # vs) then Fin (g u) else term_cap st u)"
    by (intro ext) simp
  finally show ?case .
qed

lemma set_edge_capacities_fields [simp]:
  "EDGE_WEIGHTS_at (set_edge_capacities st e a b) e' = EDGE_WEIGHTS_at st e'"
  "active (set_edge_capacities st e a b) = active st"
  "edge_cap (set_edge_capacities st e a b) = (edge_cap st)(e := (a, b))"
  "(set_edge_capacities st e a b)\<lparr>edge_cap := f\<rparr> = st\<lparr>edge_cap := f\<rparr>"
  by (simp_all add: set_edge_capacities_def EDGE_WEIGHTS_at_def split: option.split)

lemma set_d1_capacities_eq:
  "set_d1_capacities es st
     = st\<lparr>edge_cap := (\<lambda>e. if e \<in> snd ` set es \<and> e \<notin> active st
                              then (EDGE_WEIGHTS_at st e, EDGE_WEIGHTS_at st e)
                              else edge_cap st e)\<rparr>"
proof (induction es arbitrary: st)
  case Nil
  then show ?case by (simp add: set_d1_capacities_def)
next
  case (Cons x es)
  obtain v e where x: "x = (v, e)" by (cases x)
  show ?case
  proof (cases "is_active st e")
    case True
    have "set_d1_capacities (x # es) st = set_d1_capacities es st"
      using True by (simp add: set_d1_capacities_def x)
    moreover have "(\<lambda>e'. if e' \<in> snd ` set es \<and> e' \<notin> active st
                              then (EDGE_WEIGHTS_at st e', EDGE_WEIGHTS_at st e')
                              else edge_cap st e')
      = (\<lambda>e'. if e' \<in> snd ` set (x # es) \<and> e' \<notin> active st
                              then (EDGE_WEIGHTS_at st e', EDGE_WEIGHTS_at st e')
                              else edge_cap st e')"
      using True by (intro ext) (auto simp: is_active_def x)
    ultimately show ?thesis
      by (simp only: Cons.IH)
  next
    case False
    let ?s = "set_edge_capacities st e (EDGE_WEIGHTS_at st e) (EDGE_WEIGHTS_at st e)"
    have "set_d1_capacities (x # es) st = set_d1_capacities es ?s"
      using False by (simp add: set_d1_capacities_def x)
    also have "\<dots> = st\<lparr>edge_cap := (\<lambda>e'. if e' \<in> snd ` set es \<and> e' \<notin> active ?s
                              then (EDGE_WEIGHTS_at ?s e', EDGE_WEIGHTS_at ?s e')
                              else edge_cap ?s e')\<rparr>"
      by (simp only: Cons.IH set_edge_capacities_fields(4))
    also have "(\<lambda>e'. if e' \<in> snd ` set es \<and> e' \<notin> active ?s
                              then (EDGE_WEIGHTS_at ?s e', EDGE_WEIGHTS_at ?s e')
                              else edge_cap ?s e')
      = (\<lambda>e'. if e' \<in> snd ` set (x # es) \<and> e' \<notin> active st
                              then (EDGE_WEIGHTS_at st e', EDGE_WEIGHTS_at st e')
                              else edge_cap st e')"
      using False by (intro ext) (auto simp: is_active_def x)
    finally show ?thesis .
  qed
qed

lemma only_d1_blocks:
  assumes "only_d1 st"
  shows "l1_positive rv vs st = st" "l1_negative rv vs st = st"
    "upper_bound_capacities rv vs st = st" "lower_bound_capacities rv vs st = st"
  using assms
  by (simp_all add: only_d1_def l1_positive_def l1_negative_def upper_bound_capacities_def
      lower_bound_capacities_def)

lemma kept_only_d1: "kept s = kept st \<Longrightarrow> only_d1 s = only_d1 st"
  by (rule static_derived(3)) (simp add: kept_def)

lemma first_cut_only_d1:
  assumes "only_d1 st"
  shows "first_cut eng g rv st = activate_cut (comp_edges st rv) (prepared eng g rv st, 0)"
proof -
  have "only_d1 (source_sink_capacities g (comp_vertices st rv) st)"
    using assms kept_only_d1 [of "source_sink_capacities g (comp_vertices st rv) st" st] by simp
  then show ?thesis
    by (simp add: first_cut_def Let_def prepared_def only_d1_blocks)
qed

lemma second_cut_only_d1:
  assumes "only_d1 st"
  shows "second_cut eng g rv st n = activate_cut (comp_edges st rv) (prepared eng g rv st, n)"
proof -
  have "only_d1 (source_sink_capacities g (comp_vertices st rv) st)"
    using assms kept_only_d1 [of "source_sink_capacities g (comp_vertices st rv) st" st] by simp
  then show ?thesis
    by (simp add: second_cut_def Let_def prepared_def only_d1_blocks)
qed

lemma prepared_eq:
  "prepared eng g rv st
     = st\<lparr>term_cap := gradient_terminals g rv st, edge_cap := d1_capacities rv st,
          sink := eng (gradient_terminals g rv st) (d1_capacities rv st) (comp_vertices st rv),
          solves := Suc (solves st)\<rparr>"
proof -
  let ?s = "st\<lparr>term_cap := gradient_terminals g rv st\<rparr>"
  have 1: "source_sink_capacities g (comp_vertices st rv) st = ?s"
    by (simp only: source_sink_capacities_eq gradient_terminals_def)
  have "(\<lambda>e. if e \<in> snd ` set (comp_edges st rv) \<and> e \<notin> active ?s
               then (EDGE_WEIGHTS_at ?s e, EDGE_WEIGHTS_at ?s e) else edge_cap ?s e)
      = d1_capacities rv st"
    by (intro ext) (simp add: d1_capacities_def owned_edges_def EDGE_WEIGHTS_at_def split: option.split)
  then have 2: "set_d1_capacities (comp_edges st rv) ?s = ?s\<lparr>edge_cap := d1_capacities rv st\<rparr>"
    by (simp only: set_d1_capacities_eq)
  show ?thesis
    unfolding prepared_def 1 2 by (simp add: maxflow_def)
qed

lemma static_terminals:
  assumes "static s = static st"
  shows "comp_vertices s rv = comp_vertices st rv" and "owned_edges s rv = owned_edges st rv"
    and "EDGE_WEIGHTS_at s = EDGE_WEIGHTS_at st" and "adj_vertices s = adj_vertices st"
proof -
  show "comp_vertices s rv = comp_vertices st rv"
    using assms by (rule static_derived)
  show "owned_edges s rv = owned_edges st rv"
    using assms by (rule static_owned_edges)
  show "EDGE_WEIGHTS_at s = EDGE_WEIGHTS_at st"
    using static_fields(13,14) [OF assms] by (intro ext) (simp add: EDGE_WEIGHTS_at_def split: option.split)
  show "adj_vertices s = adj_vertices st"
    using assms by (rule static_fields)
qed

text \<open>
  After the first cut the network is already the one the second cut would configure,
  and every inactive edge of the component has both ends on the same side: the second
  cut solves the same network again and activates nothing.
\<close>

lemma second_cut_after_first:
  assumes "only_d1 st" and "first_cut eng g rv st = (s1, n1)"
  shows "second_cut eng g rv s1 n1 = (s1\<lparr>solves := Suc (solves s1)\<rparr>, n1)"
proof -
  let ?P = "prepared eng g rv st"
  let ?T = "gradient_terminals g rv st"
  let ?C = "d1_capacities rv st"
  have a: "activate_cut (comp_edges st rv) (?P, 0) = (s1, n1)"
    using assms by (simp add: first_cut_only_d1)
  note fr = activate_cut_frame [OF a]
  note cn = activate_cut_count [OF a]
  note sp = activate_cut_separated [OF a]
  have Pk: "kept ?P = kept st"
    by (simp add: prepared_def)
  have ss: "static s1 = static st"
    using fr Pk by (simp add: kept_def)
  have grow: "active st \<subseteq> active s1"
    using cn Pk by (simp add: kept_def)
  have f1: "term_cap s1 = ?T" "edge_cap s1 = ?C"
    "sink s1 = eng ?T ?C (comp_vertices st rv)"
    using fr by (simp_all add: prepared_eq)
  have d1: "only_d1 s1"
    using static_derived(3) [OF ss] assms(1) by simp
  have T: "gradient_terminals g rv s1 = term_cap s1"
    unfolding gradient_terminals_def static_terminals(1) [OF ss] f1(1)
    by (intro ext) (simp add: gradient_terminals_def)
  have C: "d1_capacities rv s1 = edge_cap s1"
    unfolding d1_capacities_def static_terminals(2,3) [OF ss] f1(2)
    using grow by (intro ext) (auto simp: d1_capacities_def)
  have "prepared eng g rv s1
      = s1\<lparr>term_cap := term_cap s1, edge_cap := edge_cap s1,
           sink := eng (term_cap s1) (edge_cap s1) (comp_vertices st rv),
           solves := Suc (solves s1)\<rparr>"
    unfolding prepared_eq T C static_terminals(1) [OF ss] ..
  also have "eng (term_cap s1) (edge_cap s1) (comp_vertices st rv) = sink s1"
    using f1 by simp
  finally have P1: "prepared eng g rv s1 = s1\<lparr>solves := Suc (solves s1)\<rparr>"
    by simp
  have adj: "adj_vertices ?P = adj_vertices s1"
    using fr by (metis static_terminals(4))
  have sk: "sink ?P = sink s1"
    using fr by simp
  have idle: "\<forall>(v, e) \<in> set (comp_edges st rv).
      e \<in> active (s1\<lparr>solves := Suc (solves s1)\<rparr>)
      \<or> sink (s1\<lparr>solves := Suc (solves s1)\<rparr>) v
          = sink (s1\<lparr>solves := Suc (solves s1)\<rparr>) (adj_vertices (s1\<lparr>solves := Suc (solves s1)\<rparr>) e)"
    using sp adj sk by simp
  have "second_cut eng g rv s1 n1 = activate_cut (comp_edges s1 rv) (prepared eng g rv s1, n1)"
    using d1 by (rule second_cut_only_d1)
  also have "comp_edges s1 rv = comp_edges st rv"
    using ss by (rule static_derived)
  finally show ?thesis
    unfolding P1 using activate_cut_idle [OF idle] by simp
qed

text \<open>
  The number of solve calls is only ever counted: a run from an object with another
  count is the same run.
\<close>

lemma activate_cut_solves:
  assumes "activate_cut es (s, n) = (s', n')"
  shows "activate_cut es (s\<lparr>solves := k\<rparr>, n) = (s'\<lparr>solves := k\<rparr>, n')"
  using assms
proof (induction es arbitrary: s n)
  case Nil
  then show ?case by simp
next
  case (Cons x es)
  obtain v e where x: "x = (v, e)" by (cases x)
  let ?c = "\<not> is_active s e \<and> is_sink s v \<noteq> is_sink s (adj_vertices s e)"
  have c: "(\<not> is_active (s\<lparr>solves := k\<rparr>) e
      \<and> is_sink (s\<lparr>solves := k\<rparr>) v \<noteq> is_sink (s\<lparr>solves := k\<rparr>) (adj_vertices (s\<lparr>solves := k\<rparr>) e)) = ?c"
    by (simp add: is_active_def is_sink_def)
  show ?case
  proof (cases ?c)
    case True
    then have "activate_cut es (set_active s e, n + 1) = (s', n')"
      using Cons.prems x by simp
    from Cons.IH [OF this] have "activate_cut es ((set_active s e)\<lparr>solves := k\<rparr>, n + 1)
        = (s'\<lparr>solves := k\<rparr>, n')" .
    moreover have "(set_active s e)\<lparr>solves := k\<rparr> = set_active (s\<lparr>solves := k\<rparr>) e"
      by (simp add: set_active_def)
    ultimately show ?thesis
      unfolding x activate_cut_Cons c using True by simp
  next
    case False
    then have "activate_cut es (s, n) = (s', n')"
      using Cons.prems x by (simp del: not_not split: if_splits)
    from Cons.IH [OF this] show ?thesis
      unfolding x activate_cut_Cons c using False by (simp only: if_False)
  qed
qed

lemma solves_derived:
  "comp_vertices (st\<lparr>solves := k\<rparr>) rv = comp_vertices st rv"
  "comp_edges (st\<lparr>solves := k\<rparr>) rv = comp_edges st rv"
  "owned_edges (st\<lparr>solves := k\<rparr>) rv = owned_edges st rv"
  "only_d1 (st\<lparr>solves := k\<rparr>) = only_d1 st"
  "is_saturated (st\<lparr>solves := k\<rparr>) rv = is_saturated st rv"
  "gradient_terminals g rv (st\<lparr>solves := k\<rparr>) = gradient_terminals g rv st"
  "d1_capacities rv (st\<lparr>solves := k\<rparr>) = d1_capacities rv st"
  "set_saturation (st\<lparr>solves := k\<rparr>) rv b = (set_saturation st rv b)\<lparr>solves := k\<rparr>"
proof -
  show v: "comp_vertices (st\<lparr>solves := k\<rparr>) rv = comp_vertices st rv"
    by (simp add: comp_vertices_def seg_def)
  show "comp_edges (st\<lparr>solves := k\<rparr>) rv = comp_edges st rv"
    by (simp add: comp_edges_def v out_edges_def)
  then show o: "owned_edges (st\<lparr>solves := k\<rparr>) rv = owned_edges st rv"
    by (simp add: owned_edges_def)
  show "only_d1 (st\<lparr>solves := k\<rparr>) = only_d1 st"
    by (simp add: only_d1_def)
  show "is_saturated (st\<lparr>solves := k\<rparr>) rv = is_saturated st rv"
    by (simp add: is_saturated_def)
  show "gradient_terminals g rv (st\<lparr>solves := k\<rparr>) = gradient_terminals g rv st"
    unfolding gradient_terminals_def v by (intro ext) simp
  have w: "EDGE_WEIGHTS_at (st\<lparr>solves := k\<rparr>) e = EDGE_WEIGHTS_at st e" for e
    by (simp add: EDGE_WEIGHTS_at_def split: option.split)
  show "d1_capacities rv (st\<lparr>solves := k\<rparr>) = d1_capacities rv st"
    unfolding d1_capacities_def o by (intro ext) (simp add: w)
  show "set_saturation (st\<lparr>solves := k\<rparr>) rv b = (set_saturation st rv b)\<lparr>solves := k\<rparr>"
    by (simp add: set_saturation_def)
qed

lemma prepared_solves:
  "prepared eng g rv (st\<lparr>solves := k\<rparr>) = (prepared eng g rv st)\<lparr>solves := Suc k\<rparr>"
  by (simp add: prepared_eq solves_derived)

lemma first_cut_solves:
  assumes "only_d1 st" and "first_cut eng g rv st = (s1, n1)"
  shows "first_cut eng g rv (st\<lparr>solves := k\<rparr>) = (s1\<lparr>solves := Suc k\<rparr>, n1)"
    and "solves s1 = Suc (solves st)"
proof -
  have a: "activate_cut (comp_edges st rv) (prepared eng g rv st, 0) = (s1, n1)"
    using assms by (simp add: first_cut_only_d1)
  have "first_cut eng g rv (st\<lparr>solves := k\<rparr>)
      = activate_cut (comp_edges st rv) ((prepared eng g rv st)\<lparr>solves := Suc k\<rparr>, 0)"
    using assms(1) first_cut_only_d1 [of "st\<lparr>solves := k\<rparr>" eng g rv]
    by (simp add: solves_derived prepared_solves)
  then show "first_cut eng g rv (st\<lparr>solves := k\<rparr>) = (s1\<lparr>solves := Suc k\<rparr>, n1)"
    using activate_cut_solves [OF a] by simp
  show "solves s1 = Suc (solves st)"
    using activate_cut_frame [OF a] by (simp add: prepared_eq)
qed

lemma split_component_two_cuts_eq:
  assumes "only_d1 st" and "split_component eng g rv (st, a) = (s, a')"
  shows "split_component_two_cuts eng g rv (st\<lparr>solves := k\<rparr>, a)
      = (s\<lparr>solves := (if is_saturated st rv then k else k + 2)\<rparr>, a')"
    and "solves s = (if is_saturated st rv then solves st else Suc (solves st))"
proof -
  obtain s1 n1 where c1: "first_cut eng g rv st = (s1, n1)"
    by (cases "first_cut eng g rv st") auto
  have d1: "only_d1 s1"
    using first_cut_effect [OF c1] static_derived(3) [of s1 st] assms(1) by simp
  have one: "\<not> is_saturated st rv \<Longrightarrow> s = set_saturation s1 rv (n1 = 0) \<and> a' = a + n1"
    using assms(2) c1 d1 by (simp add: split_component_def)
  have c1k: "first_cut eng g rv (st\<lparr>solves := k\<rparr>) = (s1\<lparr>solves := Suc k\<rparr>, n1)"
    using assms(1) c1 by (rule first_cut_solves)
  have "second_cut eng g rv (s1\<lparr>solves := Suc k\<rparr>) n1
      = (s1\<lparr>solves := Suc k\<rparr>\<lparr>solves := Suc (solves (s1\<lparr>solves := Suc k\<rparr>))\<rparr>, n1)"
    using second_cut_after_first [OF _ c1k] assms(1) by (simp add: solves_derived)
  then have c2k: "second_cut eng g rv (s1\<lparr>solves := Suc k\<rparr>) n1 = (s1\<lparr>solves := k + 2\<rparr>, n1)"
    by simp
  show "split_component_two_cuts eng g rv (st\<lparr>solves := k\<rparr>, a)
      = (s\<lparr>solves := (if is_saturated st rv then k else k + 2)\<rparr>, a')"
  proof (cases "is_saturated st rv")
    case True
    then show ?thesis
      using assms(2) by (simp add: split_component_two_cuts_def split_component_def solves_derived)
  next
    case False
    then show ?thesis
      using one c1k c2k by (simp add: split_component_two_cuts_def solves_derived)
  qed
  show "solves s = (if is_saturated st rv then solves st else Suc (solves st))"
  proof (cases "is_saturated st rv")
    case True
    then show ?thesis
      using assms(2) by (simp add: split_component_def)
  next
    case False
    then show ?thesis
      using one first_cut_solves(2) [OF assms(1) c1] by (simp add: set_saturation_def)
  qed
qed

lemma split_two_cuts_fold:
  assumes "only_d1 st" and "distinct xs"
    and "fold (split_component eng g) xs (st, a) = (s, a')"
  shows "fold (split_component_two_cuts eng g) xs (st\<lparr>solves := k\<rparr>, a)
      = (s\<lparr>solves := k + 2 * length (filter (\<lambda>rv. \<not> is_saturated st rv) xs)\<rparr>, a')
    \<and> solves s = solves st + length (filter (\<lambda>rv. \<not> is_saturated st rv) xs)"
  using assms
proof (induction xs arbitrary: st a k)
  case Nil
  then show ?case by auto
next
  case (Cons x xs)
  obtain s1 a1 where s: "split_component eng g x (st, a) = (s1, a1)"
    by (cases "split_component eng g x (st, a)") auto
  note e = split_component_effect [OF s]
  note t = split_component_two_cuts_eq [OF Cons.prems(1) s]
  have d1: "only_d1 s1"
    using static_derived(3) [OF e(1)] Cons.prems(1) by simp
  have r: "fold (split_component eng g) xs (s1, a1) = (s, a')"
    using Cons.prems(3) s by simp
  have dx: "distinct xs" "x \<notin> set xs"
    using Cons.prems(2) by simp_all
  have flt: "filter (\<lambda>rv. \<not> is_saturated s1 rv) xs = filter (\<lambda>rv. \<not> is_saturated st rv) xs"
  proof (rule filter_cong [OF refl])
    fix rv assume "rv \<in> set xs"
    then have "rv \<noteq> x" using dx(2) by auto
    then show "(\<not> is_saturated s1 rv) = (\<not> is_saturated st rv)"
      using e(4) [of rv] by (simp add: is_saturated_def)
  qed
  let ?k1 = "if is_saturated st x then k else k + 2"
  note ih = Cons.IH [OF d1 dx(1) r, of ?k1, unfolded flt]
  have "fold (split_component_two_cuts eng g) (x # xs) (st\<lparr>solves := k\<rparr>, a)
      = fold (split_component_two_cuts eng g) xs (s1\<lparr>solves := ?k1\<rparr>, a1)"
    using t(1) [of k] by simp
  then show ?case
    using ih t(2) by (cases "is_saturated st x") simp_all
qed

text \<open>
  Claim C9 (the min-cut engine is a parameter whose result is a function of the
  capacities configured and of the vertex subset). With no l1 term and no box
  constraint, \<^verbatim>\<open>split\<close> makes one solve call for every component that is not saturated
  on entry, the two-cut path makes two, and the two paths end in the same object but
  for that count: the same active edges, the same saturation flags, the same number of
  activations returned.
\<close>

theorem split_one_cut_equivalent:
  assumes "only_d1 st" and "split S eng st = Inr (st1, n1)"
    and "m = length (filter (\<lambda>rv. \<not> is_saturated st rv) [0 ..< rV st])"
  shows "solves st1 = solves st + m
    \<and> split_two_cuts S eng st = Inr (st1\<lparr>solves := solves st + 2 * m\<rparr>, n1)
    \<and> (\<exists>st2. split_two_cuts S eng st = Inr (st2, n1)
            \<and> active st2 = active st1 \<and> saturated st2 = saturated st1)"
proof -
  obtain g where g: "gradient S st = Inr g"
    using assms(2) by (auto simp: split_def split: sum.splits)
  have f: "fold (split_component eng g) [0 ..< rV st] (st, 0) = (st1, n1)"
    using assms(2) g by (simp add: split_def split_upto_def)
  have "st\<lparr>solves := solves st\<rparr> = st"
    by simp
  then have "fold (split_component_two_cuts eng g) [0 ..< rV st] (st, 0)
      = (st1\<lparr>solves := solves st + 2 * m\<rparr>, n1) \<and> solves st1 = solves st + m"
    using split_two_cuts_fold [OF assms(1) _ f, of "solves st"] assms(3) by simp
  then have "split_two_cuts S eng st = Inr (st1\<lparr>solves := solves st + 2 * m\<rparr>, n1)"
      and "solves st1 = solves st + m"
    using g by (simp_all add: split_two_cuts_def)
  then show ?thesis
    by simp
qed

lemma first_cut_cp0_none:
  "\<exists>s. first_cut eng_none g 0 cp0 = (s, 0) \<and> active s = {}"
proof -
  define s where "s = maxflow eng_none
      (set_d1_capacities (comp_edges cp0 0)
        (upper_bound_capacities 0 (comp_vertices cp0 0)
          (l1_positive 0 (comp_vertices cp0 0)
            (source_sink_capacities g (comp_vertices cp0 0) cp0))))
      (comp_vertices cp0 0)"
  have s: "first_cut eng_none g 0 cp0 = activate_cut (comp_edges cp0 0) (s, 0)"
    by (simp add: first_cut_def Let_def s_def)
  have k: "kept s = kept cp0"
    by (simp add: s_def)
  have sk: "sink s = (\<lambda>v. False)"
    by (simp add: s_def maxflow_def eng_none_def)
  have a: "active s = {}"
    using k by (simp add: kept_def cp0_fields)
  show ?thesis
    using s a sk by (simp add: cp0_lists is_active_def is_sink_def)
qed

lemma split_cp0:
  assumes "first_cut eng g 0 cp0 = (s, n)" and "gradient S0 cp0 = Inr g"
  shows "split S0 eng cp0 = Inr (set_saturation s 0 (n = 0), n)"
proof -
  have "only_d1 s"
    using first_cut_effect [OF assms(1)] static_derived(3) [of s cp0] cp0_only_d1 by simp
  then have "split_component eng g 0 (cp0, 0) = (set_saturation s 0 (n = 0), n)"
    using assms(1) by (simp add: split_component_def is_saturated_def cp0_fields)
  then show ?thesis
    using assms(2) by (simp add: split_def split_upto_def cp0_fields)
qed

lemma split_cp0_cut:
  "\<exists>st'. split S0 eng_cut cp0 = Inr (st', 1) \<and> active st' = {0} \<and> \<not> saturated st' 0"
proof -
  obtain g where g: "gradient S0 cp0 = Inr g"
    using cp0_gradient by blast
  obtain s where s: "first_cut eng_cut g 0 cp0 = (s, 1)" "active s = {0}"
    using first_cut_cp0 by blast
  show ?thesis
    using split_cp0 [OF s(1) g] s(2) by (simp add: set_saturation_def)
qed

lemma split_cp0_none:
  "\<exists>st'. split S0 eng_none cp0 = Inr (st', 0) \<and> active st' = {} \<and> saturated st' 0"
proof -
  obtain g where g: "gradient S0 cp0 = Inr g"
    using cp0_gradient by blast
  obtain s where s: "first_cut eng_none g 0 cp0 = (s, 0)" "active s = {}"
    using first_cut_cp0_none by blast
  show ?thesis
    using split_cp0 [OF s(1) g] s(2) by (simp add: set_saturation_def)
qed

lemma cp0_owned: "owned_edges cp0 0 = {0}" "disjoint_components cp0"
  by (simp_all add: owned_edges_def cp0_lists disjoint_components_def cp0_fields)

theorem split_activation_monotone_witness:
  "\<exists>st'. split S0 eng_cut cp0 = Inr (st', 1) \<and> split_repeat S0 eng_cut 1 cp0 = Inr st'
     \<and> active cp0 \<subseteq> active st' \<and> active st' = {0}"
proof -
  obtain st' where s: "split S0 eng_cut cp0 = Inr (st', 1)" "active st' = {0}"
    using split_cp0_cut by blast
  have r: "split_repeat S0 eng_cut 1 cp0 = Inr st'"
    using s(1) by simp
  have "active cp0 \<subseteq> active st'"
    using split_activation_monotone [of S0 eng_cut cp0 st' 1 1 st'] s(1) r by blast
  then show ?thesis
    using s r by blast
qed

theorem split_saturation_witness:
  "(\<exists>st'. split S0 eng_cut cp0 = Inr (st', 1) \<and> \<not> is_saturated st' 0
       \<and> card ((active st' - active cp0) \<inter> owned_edges cp0 0) = 1)
   \<and> (\<exists>st'. split S0 eng_none cp0 = Inr (st', 0) \<and> is_saturated st' 0
       \<and> card ((active st' - active cp0) \<inter> owned_edges cp0 0) = 0)"
proof -
  obtain g where g: "gradient S0 cp0 = Inr g"
    using cp0_gradient by blast
  have r: "0 < rV cp0" "\<not> is_saturated cp0 0"
    by (simp_all add: cp0_fields is_saturated_def)
  obtain s1 where s1: "split S0 eng_cut cp0 = Inr (s1, 1)" "active s1 = {0}"
    using split_cp0_cut by blast
  obtain s2 where s2: "split S0 eng_none cp0 = Inr (s2, 0)" "active s2 = {}"
    using split_cp0_none by blast
  have c1: "card ((active s1 - active cp0) \<inter> owned_edges cp0 0) = 1"
    by (simp add: s1 cp0_owned cp0_fields)
  have c2: "card ((active s2 - active cp0) \<inter> owned_edges cp0 0) = 0"
    by (simp add: s2 cp0_owned cp0_fields)
  have "\<not> is_saturated s1 0"
    using split_saturation [OF g r s1(1), THEN conjunct2] cp0_owned(2) c1 by simp
  moreover have "is_saturated s2 0"
    using split_saturation [OF g r s2(1), THEN conjunct2] cp0_owned(2) c2 by simp
  ultimately show ?thesis
    using s1 s2 c1 c2 by blast
qed

theorem split_one_cut_equivalent_witness:
  "\<exists>st1. split S0 eng_cut cp0 = Inr (st1, 1) \<and> solves st1 = 1
     \<and> split_two_cuts S0 eng_cut cp0 = Inr (st1\<lparr>solves := 2\<rparr>, 1)"
proof -
  obtain s1 where s1: "split S0 eng_cut cp0 = Inr (s1, 1)"
    using split_cp0_cut by blast
  have m: "1 = length (filter (\<lambda>rv. \<not> is_saturated cp0 rv) [0 ..< rV cp0])"
    by (simp add: cp0_fields is_saturated_def)
  have z: "solves cp0 = 0"
    by (simp add: cp0_def Cp_d1_ql1b_def base0_def)
  show ?thesis
    using split_one_cut_equivalent [OF cp0_only_d1 s1 m] s1 z by simp
qed

section \<open>The objective: results\<close>

lemma wf_partition_mono:
  assumes "wf_partition st" and "rv < rV st"
  shows "unat (first_vertex st rv) \<le> unat (first_vertex st (Suc rv))"
  using assms by (simp add: wf_partition_def word_le_nat_alt)

lemma seg_concat:
  assumes "wf_partition st" and "k \<le> rV st"
  shows "concat (map (seg st) [0 ..< k]) = [0 ..< unat (first_vertex st k)]"
  using assms(2)
proof (induction k)
  case 0
  have "first_vertex st 0 = 0"
    using assms(1) by (simp add: wf_partition_def)
  then show ?case by simp
next
  case (Suc k)
  have m: "unat (first_vertex st k) \<le> unat (first_vertex st (Suc k))"
    using wf_partition_mono [OF assms(1), of k] Suc.prems by simp
  have "concat (map (seg st) [0 ..< k]) = [0 ..< unat (first_vertex st k)]"
    using Suc by simp
  then have "concat (map (seg st) [0 ..< Suc k])
      = [0 ..< unat (first_vertex st k)] @ [unat (first_vertex st k) ..< unat (first_vertex st (Suc k))]"
    by (simp add: seg_def)
  also have "\<dots> = [0 ..< unat (first_vertex st (Suc k))]"
    using m by (metis le_add_diff_inverse upt_add_eq_append zero_le)
  finally show ?case .
qed

lemma seg_all:
  assumes "wf_partition st"
  shows "concat (map (seg st) [0 ..< rV st]) = [0 ..< this_V st]"
  using seg_concat [OF assms, of "rV st"] assms by (simp add: wf_partition_def)

lemma seg_size_length:
  assumes "wf_partition st" and "rv < rV st"
  shows "seg_size st rv = length (seg st rv)"
proof -
  have "first_vertex st rv \<le> first_vertex st (Suc rv)"
    using assms by (simp add: wf_partition_def)
  then show ?thesis
    by (simp add: seg_size_def seg_def unat_sub)
qed

lemma sum_list_concat_map:
  fixes h :: "'a \<Rightarrow> real"
  shows "sum_list (map h (concat (map f ks))) = sum_list (map (\<lambda>k. sum_list (map h (f k))) ks)"
  by (induction ks) simp_all

text \<open>
  Summing over the components and, within each, over its members is summing over the
  vertices.
\<close>

lemma sum_over_partition:
  assumes "wf_partition st"
  shows "(\<Sum>rv < rV st. over_component st rv (F rv)) = (\<Sum>v < this_V st. F (comp_assign st v) v)"
proof -
  let ?h = "\<lambda>i. F (comp_assign st (comp_list st i)) (comp_list st i)"
  have "over_component st rv (F rv) = sum_list (map ?h (seg st rv))" if "rv < rV st" for rv
  proof -
    have "\<forall>i \<in> set (seg st rv). comp_assign st (comp_list st i) = rv"
      using assms that by (simp add: wf_partition_def)
    then show ?thesis
      unfolding over_component_def by (intro arg_cong [of _ _ sum_list] map_cong refl) simp
  qed
  then have "(\<Sum>rv < rV st. over_component st rv (F rv))
      = (\<Sum>rv < rV st. sum_list (map ?h (seg st rv)))"
    by simp
  also have "\<dots> = sum_list (map (\<lambda>rv. sum_list (map ?h (seg st rv))) [0 ..< rV st])"
    by (simp add: interv_sum_list_conv_sum_set_nat atLeast0LessThan)
  also have "\<dots> = sum_list (map ?h (concat (map (seg st) [0 ..< rV st])))"
    by (simp add: sum_list_concat_map)
  also have "\<dots> = (\<Sum>i < this_V st. ?h i)"
    by (simp add: seg_all [OF assms] interv_sum_list_conv_sum_set_nat atLeast0LessThan)
  also have "\<dots> = (\<Sum>v < this_V st. F (comp_assign st v) v)"
    using assms
    by (intro sum.reindex_bij_betw [of "comp_list st" _ _ "\<lambda>v. F (comp_assign st v) v"])
      (simp add: wf_partition_def)
  finally show ?thesis .
qed

lemma fold_add_list:
  fixes G :: "'i \<Rightarrow> real"
  shows "fold (\<lambda>x s. s + G x) xs s0 = s0 + sum_list (map G xs)"
  by (induction xs arbitrary: s0) simp_all

lemma fold_add_upt:
  fixes G :: "nat \<Rightarrow> real"
  shows "fold (\<lambda>x s. s + G x) [0 ..< n] 0 = (\<Sum>x < n. G x)"
  by (simp add: fold_add_list interv_sum_list_conv_sum_set_nat atLeast0LessThan)

lemma acc_loop_over:
  "acc_loop (\<lambda>v. f (comp_list st v)) (seg st rv) s = s + over_component st rv f"
  by (simp add: acc_loop_def fold_add_list over_component_def)

lemma over_component_sum:
  "over_component st rv f
     = (\<Sum>i = unat (first_vertex st rv) ..< unat (first_vertex st (Suc rv)). f (comp_list st i))"
  by (simp add: over_component_def seg_def interv_sum_list_conv_sum_set_nat)

lemma over_component_const:
  assumes "wf_partition st" and "rv < rV st"
  shows "over_component st rv (\<lambda>v. c) = real (seg_size st rv) * c"
  using seg_size_length [OF assms]
  by (simp add: over_component_def sum_list_triv)

lemma over_component_linear:
  "over_component st rv (\<lambda>v. c * f v) = c * over_component st rv f"
  "over_component st rv (\<lambda>v. f v * c) = over_component st rv f * c"
  "over_component st rv (\<lambda>v. f v - g v) = over_component st rv f - over_component st rv g"
  "over_component st rv (\<lambda>v. f v + g v) = over_component st rv f + over_component st rv g"
  "over_component st rv (\<lambda>v. \<Sum>k < n. h k v) = (\<Sum>k < n. over_component st rv (h k))"
  by (simp_all add: over_component_sum sum_distrib_left sum_distrib_right sum_subtractf
      sum.distrib sum.swap [of _ "{..< n}"])

text \<open>
  The reduced premultiplied operator, entry \<open>(ru, rv)\<close>.
\<close>

lemma nested_over:
  "fold (\<lambda>u r. acc_loop (\<lambda>v. Am (k * comp_list st u + comp_list st v)) (seg st rv) r) (seg st ru) 0
     = over_component st ru (\<lambda>u. over_component st rv (\<lambda>v. Am (k * u + v)))"
proof -
  have "fold (\<lambda>u r. acc_loop (\<lambda>v. Am (k * comp_list st u + comp_list st v)) (seg st rv) r) xs r0
      = r0 + sum_list (map (\<lambda>u. over_component st rv (\<lambda>v. Am (k * comp_list st u + v))) xs)"
    for xs r0
  proof (induction xs arbitrary: r0)
    case Nil
    then show ?case by simp
  next
    case (Cons a xs)
    have "acc_loop (\<lambda>v. Am (k * comp_list st a + comp_list st v)) (seg st rv) r0
        = r0 + over_component st rv (\<lambda>v. Am (k * comp_list st a + v))"
      by (rule acc_loop_over [of "\<lambda>w. Am (k * comp_list st a + w)"])
    then show ?case
      by (simp add: Cons.IH)
  qed
  then show ?thesis
    by (simp add: over_component_def)
qed

lemma triangle_fold:
  fixes a b :: "nat \<Rightarrow> real"
  shows "fold (\<lambda>rv s. if rv < ru then s + a rv else s + b rv) [0 ..< Suc ru] 0
     = (\<Sum>rv < ru. a rv) + b ru"
proof -
  have "(\<lambda>rv s. if rv < ru then s + a rv else s + b rv)
      = (\<lambda>rv s. s + (if rv < ru then a rv else b rv))"
    by (intro ext) simp
  then have "fold (\<lambda>rv s. if rv < ru then s + a rv else s + b rv) [0 ..< Suc ru] 0
      = (\<Sum>rv < Suc ru. if rv < ru then a rv else b rv)"
    by (simp only: fold_add_upt)
  then show ?thesis
    by simp
qed

lemma objective_full_sum:
  "objective_full st Am
     = (\<Sum>ru < rV st. rX st ru
          * ((\<Sum>rv < ru. reduced_AA st Am ru rv * rX st rv)
             + (1 / 2) * reduced_AA st Am ru ru * rX st ru
             - over_component st ru (Y_at st)))"
proof -
  have inner: "fold (\<lambda>u r. acc_loop (\<lambda>v. Am (this_V st * comp_list st u + comp_list st v))
                               (seg st rv) r) (seg st ru) 0
      = reduced_AA st Am ru rv" for ru rv
    unfolding reduced_AA_def by (rule nested_over)
  have y: "acc_loop (\<lambda>u. Y_at st (comp_list st u)) (seg st ru) 0 = over_component st ru (Y_at st)"
    for ru
    using acc_loop_over [of "Y_at st" st ru 0] by simp
  have "objective_full st Am
      = fold (\<lambda>ru obj. obj + rX st ru
          * ((\<Sum>rv < ru. reduced_AA st Am ru rv * rX st rv)
             + (1 / 2) * reduced_AA st Am ru ru * rX st ru
             - over_component st ru (Y_at st))) [0 ..< rV st] 0"
    unfolding objective_full_def Let_def inner y triangle_fold ..
  then show ?thesis
    by (simp only: fold_add_upt)
qed

lemma objective_diag_sum:
  "objective_diag st
     = (\<Sum>rv < rV st. rX st rv
          * ((1 / 2) * (case this_A st of
                          Some Am \<Rightarrow> over_component st rv Am
                        | None \<Rightarrow> real (seg_size st rv)) * rX st rv
             - over_component st rv (Y_at st)))"
proof -
  have y: "acc_loop (\<lambda>u. Y_at st (comp_list st u)) (seg st rv) 0 = over_component st rv (Y_at st)"
    for rv
    using acc_loop_over [of "Y_at st" st rv 0] by simp
  have a: "acc_loop (\<lambda>v. Am (comp_list st v)) (seg st rv) 0 = over_component st rv Am" for Am rv
    using acc_loop_over [of Am st rv 0] by simp
  have "objective_diag st
      = fold (\<lambda>rv obj. obj + rX st rv
          * ((1 / 2) * (case this_A st of
                          Some Am \<Rightarrow> over_component st rv Am
                        | None \<Rightarrow> real (seg_size st rv)) * rX st rv
             - over_component st rv (Y_at st))) [0 ..< rV st] 0"
    unfolding objective_diag_def Let_def y a ..
  then show ?thesis
    by (simp only: fold_add_upt)
qed

lemma triangular_sum:
  fixes T :: "nat \<Rightarrow> nat \<Rightarrow> real"
  assumes "\<forall>i < n. \<forall>j < n. T i j = T j i"
  shows "(\<Sum>i < n. (\<Sum>j < i. T i j) + (1 / 2) * T i i) = (1 / 2) * (\<Sum>i < n. \<Sum>j < n. T i j)"
  using assms
proof (induction n)
  case 0
  then show ?case by simp
next
  case (Suc n)
  have ih: "(\<Sum>i < n. (\<Sum>j < i. T i j) + (1 / 2) * T i i) = (1 / 2) * (\<Sum>i < n. \<Sum>j < n. T i j)"
    using Suc by simp
  have sym: "(\<Sum>i < n. T i n) = (\<Sum>i < n. T n i)"
    using Suc.prems by (intro sum.cong refl) simp
  have "(\<Sum>i < Suc n. \<Sum>j < Suc n. T i j)
      = (\<Sum>i < n. \<Sum>j < n. T i j) + (\<Sum>i < n. T i n) + (\<Sum>j < n. T n j) + T n n"
    by (simp add: sum.distrib)
  then show ?case
    using ih sym by (simp add: field_simps)
qed

lemma member_in_range:
  assumes "wf_partition st" and "rv < rV st" and "i \<in> set (seg st rv)"
  shows "comp_list st i < this_V st"
proof -
  have "i \<in> set (concat (map (seg st) [0 ..< rV st]))"
    using assms(2,3) by auto
  then have "i < this_V st"
    by (simp add: seg_all [OF assms(1)])
  moreover have "bij_betw (comp_list st) {..< this_V st} {..< this_V st}"
    using assms(1) by (simp add: wf_partition_def)
  ultimately show ?thesis
    using bij_betwE by fastforce
qed

lemma linear_over_vertices:
  assumes "wf_partition st"
  shows "(\<Sum>u < this_V st. vertex_value st u * f u)
     = (\<Sum>ru < rV st. rX st ru * over_component st ru f)"
  using sum_over_partition [OF assms, of "\<lambda>ru u. rX st ru * f u"]
  by (simp add: vertex_value_def over_component_linear)

lemma square_over_vertices:
  assumes "wf_partition st"
  shows "(\<Sum>v < this_V st. vertex_value st v * f v * vertex_value st v)
     = (\<Sum>rv < rV st. rX st rv * over_component st rv f * rX st rv)"
  using sum_over_partition [OF assms, of "\<lambda>rv v. rX st rv * f v * rX st rv"]
  by (simp add: vertex_value_def over_component_linear)

lemma bilinear_over_vertices:
  assumes "wf_partition st"
  shows "(\<Sum>u < this_V st. \<Sum>v < this_V st.
            vertex_value st u * Am (this_V st * u + v) * vertex_value st v)
     = (\<Sum>ru < rV st. \<Sum>rv < rV st. rX st ru * reduced_AA st Am ru rv * rX st rv)"
proof -
  have inner: "(\<Sum>v < this_V st. c * Am (this_V st * u + v) * vertex_value st v)
      = (\<Sum>rv < rV st. over_component st rv (\<lambda>v. c * Am (this_V st * u + v) * rX st rv))"
    for u c
    using sum_over_partition [OF assms, of "\<lambda>rv v. c * Am (this_V st * u + v) * rX st rv"]
    by (simp add: vertex_value_def)
  have "(\<Sum>u < this_V st. \<Sum>v < this_V st.
            vertex_value st u * Am (this_V st * u + v) * vertex_value st v)
      = (\<Sum>u < this_V st. \<Sum>rv < rV st.
            over_component st rv (\<lambda>v. rX st (comp_assign st u) * Am (this_V st * u + v) * rX st rv))"
    by (simp only: inner vertex_value_def [of st, symmetric])
  also have "\<dots> = (\<Sum>ru < rV st. over_component st ru (\<lambda>u. \<Sum>rv < rV st.
            over_component st rv (\<lambda>v. rX st ru * Am (this_V st * u + v) * rX st rv)))"
    using sum_over_partition [OF assms, of "\<lambda>ru u. \<Sum>rv < rV st.
            over_component st rv (\<lambda>v. rX st ru * Am (this_V st * u + v) * rX st rv)"]
    by simp
  also have "\<dots> = (\<Sum>ru < rV st. \<Sum>rv < rV st. rX st ru * reduced_AA st Am ru rv * rX st rv)"
    by (simp add: over_component_linear reduced_AA_def mult.assoc)
  finally show ?thesis .
qed

lemma reduced_AA_symmetric:
  assumes "wf_partition st" and "symmetric_operator S st" and "this_N st = FULL_ATA S"
    and "this_A st = Some Am" and "ru < rV st" and "rv < rV st"
  shows "reduced_AA st Am ru rv = reduced_AA st Am rv ru"
proof -
  have s: "Am (this_V st * comp_list st i + comp_list st j)
      = Am (this_V st * comp_list st j + comp_list st i)"
    if "i \<in> set (seg st ru)" and "j \<in> set (seg st rv)" for i j
    using member_in_range [OF assms(1,5) that(1)] member_in_range [OF assms(1,6) that(2)]
      assms(2,3,4)
    by (simp add: symmetric_operator_def)
  have "reduced_AA st Am ru rv
      = (\<Sum>i \<in> set (seg st ru). \<Sum>j \<in> set (seg st rv).
           Am (this_V st * comp_list st i + comp_list st j))"
    by (simp add: reduced_AA_def over_component_sum seg_def)
  also have "\<dots> = (\<Sum>i \<in> set (seg st ru). \<Sum>j \<in> set (seg st rv).
           Am (this_V st * comp_list st j + comp_list st i))"
    by (intro sum.cong refl) (rule s)
  also have "\<dots> = (\<Sum>j \<in> set (seg st rv). \<Sum>i \<in> set (seg st ru).
           Am (this_V st * comp_list st j + comp_list st i))"
    by (rule sum.swap)
  also have "\<dots> = reduced_AA st Am rv ru"
    by (simp add: reduced_AA_def over_component_sum seg_def)
  finally show ?thesis .
qed

lemma objective_full_vertices:
  assumes "wf_partition st" and "symmetric_operator S st" and "this_N st = FULL_ATA S"
    and "this_A st = Some Am"
  shows "objective_full st Am
     = (1 / 2) * (\<Sum>u < this_V st. \<Sum>v < this_V st.
                    vertex_value st u * Am (this_V st * u + v) * vertex_value st v)
       - (\<Sum>u < this_V st. vertex_value st u * Y_at st u)"
proof -
  let ?T = "\<lambda>ru rv. rX st ru * reduced_AA st Am ru rv * rX st rv"
  have sym: "\<forall>i < rV st. \<forall>j < rV st. ?T i j = ?T j i"
    using reduced_AA_symmetric [OF assms] by simp
  have "objective_full st Am
      = (\<Sum>ru < rV st. ((\<Sum>rv < ru. ?T ru rv) + (1 / 2) * ?T ru ru)
            - rX st ru * over_component st ru (Y_at st))"
    unfolding objective_full_sum
    by (intro sum.cong refl) (simp add: algebra_simps sum_distrib_left)
  also have "\<dots> = (\<Sum>ru < rV st. (\<Sum>rv < ru. ?T ru rv) + (1 / 2) * ?T ru ru)
      - (\<Sum>ru < rV st. rX st ru * over_component st ru (Y_at st))"
    by (rule sum_subtractf)
  also have "(\<Sum>ru < rV st. (\<Sum>rv < ru. ?T ru rv) + (1 / 2) * ?T ru ru)
      = (1 / 2) * (\<Sum>ru < rV st. \<Sum>rv < rV st. ?T ru rv)"
    using sym by (rule triangular_sum)
  finally show ?thesis
    by (simp only: bilinear_over_vertices [OF assms(1)] linear_over_vertices [OF assms(1)])
qed

lemma objective_diag_vertices:
  assumes "wf_partition st" and "this_A st = Some Am"
  shows "objective_diag st
     = (1 / 2) * (\<Sum>v < this_V st. vertex_value st v * Am v * vertex_value st v)
       - (\<Sum>v < this_V st. vertex_value st v * Y_at st v)"
proof -
  have "objective_diag st
      = (\<Sum>rv < rV st. (1 / 2) * (rX st rv * over_component st rv Am * rX st rv)
            - rX st rv * over_component st rv (Y_at st))"
    unfolding objective_diag_sum assms(2)
    by (intro sum.cong refl) (simp add: algebra_simps)
  also have "\<dots> = (1 / 2) * (\<Sum>rv < rV st. rX st rv * over_component st rv Am * rX st rv)
      - (\<Sum>rv < rV st. rX st rv * over_component st rv (Y_at st))"
    by (simp only: sum_subtractf sum_distrib_left)
  finally show ?thesis
    by (simp only: square_over_vertices [OF assms(1)] linear_over_vertices [OF assms(1)])
qed

lemma objective_identity_vertices:
  assumes "wf_partition st" and "this_A st = None"
  shows "objective_diag st
     = (1 / 2) * (\<Sum>v < this_V st. vertex_value st v * 1 * vertex_value st v)
       - (\<Sum>v < this_V st. vertex_value st v * Y_at st v)"
proof -
  have c: "real (seg_size st rv) = over_component st rv (\<lambda>v. 1)" if "rv < rV st" for rv
    using over_component_const [OF assms(1) that, of 1] by simp
  have "objective_diag st
      = (\<Sum>rv < rV st. (1 / 2) * (rX st rv * over_component st rv (\<lambda>v. 1) * rX st rv)
            - rX st rv * over_component st rv (Y_at st))"
    unfolding objective_diag_sum assms(2)
    by (intro sum.cong refl) (simp add: c algebra_simps)
  also have "\<dots> = (1 / 2) * (\<Sum>rv < rV st. rX st rv * over_component st rv (\<lambda>v. 1) * rX st rv)
      - (\<Sum>rv < rV st. rX st rv * over_component st rv (Y_at st))"
    by (simp only: sum_subtractf sum_distrib_left)
  also have "\<dots> = (1 / 2) * (\<Sum>v < this_V st. vertex_value st v * 1 * vertex_value st v)
      - (\<Sum>v < this_V st. vertex_value st v * Y_at st v)"
    by (simp only: square_over_vertices [OF assms(1)] linear_over_vertices [OF assms(1)])
  finally show ?thesis
    by simp
qed

lemma objective_full_null:
  assumes "\<not> list_ex (\<lambda>ru. seg st ru \<noteq> []) [0 ..< rV st]"
  shows "objective_full st Am = 0"
proof -
  have e: "seg st ru = []" if "ru < rV st" for ru
    using assms that by (simp add: list_ex_iff)
  have "over_component st ru f = 0" if "ru < rV st" for ru f
    using e [OF that] by (simp add: over_component_def)
  then show ?thesis
    unfolding objective_full_sum reduced_AA_def by simp
qed

lemma no_vertex_no_member:
  assumes "wf_partition st" and "this_V st = 0"
  shows "\<not> list_ex (\<lambda>ru. seg st ru \<noteq> []) [0 ..< rV st]"
  using seg_all [OF assms(1)] assms(2) by (simp add: list_ex_iff)

lemma residual_squares:
  "acc_loop (\<lambda>n. cont b n * cont b n) [0 ..< k] 0 = (\<Sum>n < k. (cont b n)\<^sup>2)"
  by (simp add: acc_loop_def fold_add_upt power2_eq_square)

lemma spec_quadratic_unit:
  "spec_quadratic S (unit_coefficient st) =
     (if \<not> IS_ATA S (this_N st) then
        (case this_R st of
           Some b \<Rightarrow> (1 / 2) * (\<Sum>n < unat (this_N st). (cont b n)\<^sup>2)
         | None \<Rightarrow> 0)
      else if this_N st = FULL_ATA S then
        (case this_A st of
           Some Am \<Rightarrow>
             (1 / 2) * (\<Sum>u < this_V st. \<Sum>v < this_V st.
                          vertex_value st u * Am (this_V st * u + v) * vertex_value st v)
             - (\<Sum>u < this_V st. vertex_value st u * Y_at st u)
         | None \<Rightarrow> 0)
      else
        (case this_A st of
           Some Am \<Rightarrow>
             (1 / 2) * (\<Sum>v < this_V st. vertex_value st v * Am v * vertex_value st v)
             - (\<Sum>v < this_V st. vertex_value st v * Y_at st v)
         | None \<Rightarrow>
             if this_a st \<noteq> 0
             then (1 / 2) * (\<Sum>v < this_V st. vertex_value st v * 1 * vertex_value st v)
                  - (\<Sum>v < this_V st. vertex_value st v * Y_at st v)
             else 0))"
  by (simp add: spec_quadratic_def vertex_value_def Y_at_def split: option.split)

lemma objective_quadratic_terms:
  assumes "wf_partition st" and "symmetric_operator S st" and "quadratic_stored S st"
  shows "objective_quadratic S st = Inr (spec_quadratic S (unit_coefficient st))"
proof (cases "IS_ATA S (this_N st)")
  case False
  show ?thesis
  proof (cases "unat (this_N st) = 0")
    case True
    with False show ?thesis
      by (simp add: spec_quadratic_unit objective_quadratic_def split: option.split)
  next
    case n: False
    then obtain b where b: "this_R st = Some b" "unat (this_N st) \<le> len b"
      using assms(3) False by (auto simp: quadratic_stored_def split: option.splits)
    show ?thesis
      using False n b by (simp add: spec_quadratic_unit objective_quadratic_def residual_squares)
  qed
next
  case ata: True
  show ?thesis
  proof (cases "this_N st = FULL_ATA S")
    case full: True
    show ?thesis
    proof (cases "this_A st")
      case None
      then have "this_V st = 0"
        using assms(3) ata full by (simp add: quadratic_stored_def)
      then have e: "\<not> list_ex (\<lambda>ru. seg st ru \<noteq> []) [0 ..< rV st]"
        by (rule no_vertex_no_member [OF assms(1)])
      show ?thesis
        using ata full None e
        by (simp add: spec_quadratic_unit objective_quadratic_def objective_full_null)
    next
      case (Some Am)
      show ?thesis
        using ata full Some objective_full_vertices [OF assms(1,2) full Some]
        by (simp add: spec_quadratic_unit objective_quadratic_def)
    qed
  next
    case diag: False
    show ?thesis
    proof (cases "this_A st")
      case None
      show ?thesis
        using ata diag None objective_identity_vertices [OF assms(1) None]
        by (simp add: spec_quadratic_unit objective_quadratic_def)
    next
      case (Some Am)
      show ?thesis
        using ata diag Some objective_diag_vertices [OF assms(1) Some]
        by (simp add: spec_quadratic_unit objective_quadratic_def)
    qed
  qed
qed

lemma objective_l1_terms:
  assumes "wf_partition st"
  shows "objective_l1 st obj = obj + spec_l1 st"
proof (cases "l1_weights st")
  case (Some w)
  then show ?thesis
    by (simp add: objective_l1_def spec_l1_def L1_WEIGHTS_at_def vertex_value_def acc_loop_def
        fold_add_list interv_sum_list_conv_sum_set_nat atLeast0LessThan)
next
  case None
  have "fold (\<lambda>rv l1. acc_loop (\<lambda>v. \<bar>rX st rv - Yl1_at st (comp_list st v)\<bar>) (seg st rv) l1)
          [0 ..< rV st] 0
      = fold (\<lambda>rv l1. l1 + over_component st rv (\<lambda>v. \<bar>rX st rv - Yl1_at st v\<bar>)) [0 ..< rV st] 0"
    by (simp only: acc_loop_over [of "\<lambda>v. \<bar>rX st rv - Yl1_at st v\<bar>" for rv])
  also have "\<dots> = (\<Sum>rv < rV st. over_component st rv (\<lambda>v. \<bar>rX st rv - Yl1_at st v\<bar>))"
    by (rule fold_add_upt)
  also have "\<dots> = (\<Sum>v < this_V st. \<bar>vertex_value st v - Yl1_at st v\<bar>)"
    using sum_over_partition [OF assms, of "\<lambda>rv v. \<bar>rX st rv - Yl1_at st v\<bar>"]
    by (simp add: vertex_value_def)
  finally have f: "fold (\<lambda>rv l1. acc_loop (\<lambda>v. \<bar>rX st rv - Yl1_at st (comp_list st v)\<bar>) (seg st rv) l1)
          [0 ..< rV st] 0 = (\<Sum>v < this_V st. \<bar>vertex_value st v - Yl1_at st v\<bar>)" .
  show ?thesis
    using None
    by (simp add: objective_l1_def spec_l1_def L1_WEIGHTS_at_def f sum_distrib_left)
qed

text \<open>
  Claim C7, as the code has it. On a well-formed partition, with the buffers that the
  stored shape reads in place and, in the full premultiplied shape, a symmetric
  operator array, \<^verbatim>\<open>compute_objective\<close> returns the quadratic term over the vertices
  (half the squared norm of the residual in the direct shape,
  \<open>1/2 x\<^sup>t (A\<^sup>t A) x - x\<^sup>t (A\<^sup>t Y)\<close> in the premultiplied shapes, with the identity for
  \<open>A\<^sup>t A\<close> in the scaled-identity shape whatever the nonzero \<^verbatim>\<open>a\<close>), plus the value of
  the engine's graph total variation, plus the sum over every vertex of its l1 weight
  times the distance of its value to its target. With \<^verbatim>\<open>a = 1\<close> the quadratic term is
  that of the object as it stands.
\<close>

theorem compute_objective_terms:
  assumes "wf_partition st" and "symmetric_operator S st" and "quadratic_stored S st"
  shows "compute_objective S compute_graph_d1 st
     = Inr (spec_quadratic S (unit_coefficient st) + compute_graph_d1 st + spec_l1 st)
   \<and> (this_a st = 1 \<longrightarrow> spec_quadratic S (unit_coefficient st) = spec_quadratic S st)"
proof -
  have "this_a st = 1 \<Longrightarrow> spec_quadratic S (unit_coefficient st) = spec_quadratic S st"
    by (simp add: spec_quadratic_unit) (simp add: spec_quadratic_def split: option.split)
  then show ?thesis
    by (simp add: compute_objective_def objective_quadratic_terms [OF assms]
        objective_l1_terms [OF assms(1)])
qed

lemma cp_obj_fields:
  "this_V cp_obj = 3" "rV cp_obj = 2"
  "first_vertex cp_obj = (\<lambda>rv. if rv = 0 then 0 else if rv = 1 then 2 else 3)"
  "comp_list cp_obj = (\<lambda>i. i)" "comp_assign cp_obj = (\<lambda>v. if v < 2 then 0 else 1)"
  "rX cp_obj = (\<lambda>rv. if rv = 0 then 1 else 2)" "this_N cp_obj = 0"
  "this_A cp_obj = Some (\<lambda>i. [2, 1, 0, 1, 2, 1, 0, 1, 2] ! i)"
  "this_Y cp_obj = Some (\<lambda>v. 1)" "l1_weights cp_obj = Some (\<lambda>v. 1)" "Yl1 cp_obj = None"
  "homo_edge_weight cp_obj = 1" "this_a cp_obj = 1"
  by (simp_all add: cp_obj_def cp0_def Cp_d1_ql1b_def base0_def)

lemma lessThan_3: "{..< (3::nat)} = {0, 1, 2}"
  by auto

lemma cp_obj_seg: "seg cp_obj 0 = [0, 1]" "seg cp_obj (Suc 0) = [2]"
  by (simp_all add: seg_def cp_obj_fields upt_0_2 upt_conv_Cons)

lemma cp_obj_wf: "wf_partition cp_obj"
  unfolding wf_partition_def
proof (intro conjI)
  show "first_vertex cp_obj 0 = 0"
    by (simp add: cp_obj_fields)
  show "unat (first_vertex cp_obj (rV cp_obj)) = this_V cp_obj"
    by (simp add: cp_obj_fields)
  show "\<forall>rv \<in> set [0 ..< rV cp_obj]. first_vertex cp_obj rv \<le> first_vertex cp_obj (Suc rv)"
    by (simp add: cp_obj_fields upt_0_2)
  show "bij_betw (comp_list cp_obj) {..< this_V cp_obj} {..< this_V cp_obj}"
    by (simp add: cp_obj_fields bij_betw_def)
  show "\<forall>rv \<in> set [0 ..< rV cp_obj]. \<forall>i \<in> set (seg cp_obj rv).
      comp_assign cp_obj (comp_list cp_obj i) = rv"
    by (simp add: cp_obj_fields(2) upt_0_2 cp_obj_seg) (simp add: cp_obj_fields)
qed

lemma cp_obj_symmetric: "symmetric_operator S0 cp_obj"
  by (simp add: symmetric_operator_def cp_obj_fields lessThan_3)

lemma cp_obj_stored: "quadratic_stored S0 cp_obj"
  by (simp add: quadratic_stored_def cp_obj_fields S0_sentinels S0_values)

theorem compute_objective_terms_witness:
  "compute_objective S0 d1_obj cp_obj = Inr 10
   \<and> spec_quadratic S0 cp_obj = 5 \<and> d1_obj cp_obj = 1 \<and> spec_l1 cp_obj = 4"
proof -
  have q: "spec_quadratic S0 cp_obj = 5"
    by (simp add: spec_quadratic_def vertex_value_def Y_at_def cp_obj_fields S0_sentinels
        S0_values lessThan_3)
  have d: "d1_obj cp_obj = 1"
    by (simp add: d1_obj_def cp_obj_fields)
  have l: "spec_l1 cp_obj = 4"
    by (simp add: spec_l1_def vertex_value_def Yl1_at_def L1_WEIGHTS_at_def cp_obj_fields
        lessThan_3)
  show ?thesis
    using compute_objective_terms [OF cp_obj_wf cp_obj_symmetric cp_obj_stored, of d1_obj] q d l
    by (simp add: cp_obj_fields)
qed

text \<open>
  Claim C7 as stated fails in the scaled-identity shape. In \<open>cp_scaled\<close>, with \<^verbatim>\<open>a = 2\<close>,
  the value \<open>1\<close> on both vertices and observations \<open>1, 1\<close>, the quadratic term
  \<open>1/2 x\<^sup>t (2 I) x - x\<^sup>t Y\<close> is \<open>0\<close>; with no total variation and no l1 term the value
  returned is \<open>-1\<close>, that of the identity.
\<close>

lemma cp_scaled_fields:
  "this_V cp_scaled = 2" "rV cp_scaled = 1"
  "first_vertex cp_scaled = (\<lambda>rv. if rv = 0 then 0 else 2)"
  "comp_list cp_scaled = (\<lambda>i. i)" "comp_assign cp_scaled = (\<lambda>v. 0)"
  "rX cp_scaled = (\<lambda>rv. 1)" "this_N cp_scaled = - 1" "this_A cp_scaled = None"
  "this_Y cp_scaled = Some (\<lambda>v. 1)" "l1_weights cp_scaled = None"
  "homo_l1_weight cp_scaled = 0" "Yl1 cp_scaled = None" "this_a cp_scaled = 2"
  by (simp_all add: cp_scaled_def cp0_def Cp_d1_ql1b_def base0_def S0_def)

lemma cp_scaled_seg: "seg cp_scaled 0 = [0, 1]"
  by (simp add: seg_def cp_scaled_fields upt_0_2)

lemma cp_scaled_wf: "wf_partition cp_scaled"
  unfolding wf_partition_def
proof (intro conjI)
  show "first_vertex cp_scaled 0 = 0"
    by (simp add: cp_scaled_fields)
  show "unat (first_vertex cp_scaled (rV cp_scaled)) = this_V cp_scaled"
    by (simp add: cp_scaled_fields)
  show "\<forall>rv \<in> set [0 ..< rV cp_scaled].
      first_vertex cp_scaled rv \<le> first_vertex cp_scaled (Suc rv)"
    by (simp add: cp_scaled_fields)
  show "bij_betw (comp_list cp_scaled) {..< this_V cp_scaled} {..< this_V cp_scaled}"
    by (simp add: cp_scaled_fields bij_betw_def)
  show "\<forall>rv \<in> set [0 ..< rV cp_scaled]. \<forall>i \<in> set (seg cp_scaled rv).
      comp_assign cp_scaled (comp_list cp_scaled i) = rv"
    by (simp add: cp_scaled_fields)
qed

theorem compute_objective_scaled_counterexample:
  "compute_objective S0 (\<lambda>st. 0) cp_scaled = Inr (- 1)
   \<and> spec_quadratic S0 cp_scaled + 0 + spec_l1 cp_scaled = 0
   \<and> wf_partition cp_scaled \<and> symmetric_operator S0 cp_scaled
   \<and> quadratic_stored S0 cp_scaled"
proof -
  have n: "IS_ATA S0 (this_N cp_scaled)" "this_N cp_scaled \<noteq> FULL_ATA S0"
    by (simp_all add: cp_scaled_fields S0_sentinels S0_values)
  have c: "objective_quadratic S0 cp_scaled = Inr (- 1)"
    using n
    by (simp add: objective_quadratic_def objective_diag_def cp_scaled_fields cp_scaled_seg
        seg_size_def Y_at_def acc_loop_def)
  have l: "objective_l1 cp_scaled x = x" for x
    by (simp add: objective_l1_def cp_scaled_fields)
  have q: "spec_quadratic S0 cp_scaled = 0"
    using n
    by (simp add: spec_quadratic_def vertex_value_def Y_at_def cp_scaled_fields lessThan_Suc
        numeral_2_eq_2)
  have s: "spec_l1 cp_scaled = 0"
    by (simp add: spec_l1_def L1_WEIGHTS_at_def cp_scaled_fields)
  have sy: "symmetric_operator S0 cp_scaled"
    using n by (simp add: symmetric_operator_def)
  have st: "quadratic_stored S0 cp_scaled"
    using n by (simp add: quadratic_stored_def)
  show ?thesis
    using c q s sy st cp_scaled_wf by (simp add: compute_objective_def l)
qed

end
